theory Spec2Isabelle
  imports Main "HOL-Library.Word"
begin

section \<open>VTK legacy geometry parser: element dimensions\<close>

text \<open>
  The embedding follows \<^verbatim>\<open>src/input/parsers/vtklegacy/parser/geometry.cpp\<close>.
  C++ \<^verbatim>\<open>int\<close> and \<^verbatim>\<open>esint\<close> values that are only compared are modelled as \<open>int\<close>;
  \<^verbatim>\<open>size_t\<close> values that take part in arithmetic are 64-bit words.
\<close>

text \<open>\<^verbatim>\<open>_dimension\<close>: the topological dimension of a VTK cell type code, \<open>-1\<close> for a
  code the switch does not list.\<close>

definition dimension :: "int \<Rightarrow> int" where
  "dimension vtktype =
     (if vtktype = 1 then 0
      else if vtktype = 3 then 1
      else if vtktype = 21 then 1
      else if vtktype = 9 then 2
      else if vtktype = 23 then 2
      else if vtktype = 5 then 2
      else if vtktype = 22 then 2
      else if vtktype = 10 then 3
      else if vtktype = 24 then 3
      else if vtktype = 14 then 3
      else if vtktype = 27 then 3
      else if vtktype = 13 then 3
      else if vtktype = 26 then 3
      else if vtktype = 12 then 3
      else if vtktype = 25 then 3
      else -1)"

text \<open>The element codes of \<^verbatim>\<open>Element::CODE\<close> that \<^verbatim>\<open>_etype\<close> can return.\<close>

datatype CODE =
  LINE2 | LINE3 | TRIANGLE3 | SQUARE4 | TRIANGLE6 | SQUARE8
  | TETRA4 | PYRAMID5 | PRISMA6 | HEXA8 | TETRA10 | PYRAMID13 | PRISMA15 | HEXA20

text \<open>The fatal errors of \<^verbatim>\<open>VTKLegacyGeometry::parse\<close>: \<^verbatim>\<open>eslog::globalerror\<close> for a file
  of various element dimensions (with the file index), \<^verbatim>\<open>eslog::error\<close> of \<^verbatim>\<open>_etype\<close>
  (with dimension and element size).\<close>

datatype error =
  VariousDimension nat
  | UnrecognizedElementType int int

definition etype :: "int \<Rightarrow> int \<Rightarrow> error + CODE" where
  "etype dim esize =
     (if dim = 1 \<and> esize = 2 then Inr LINE2
      else if dim = 1 \<and> esize = 3 then Inr LINE3
      else if dim = 2 \<and> esize = 3 then Inr TRIANGLE3
      else if dim = 2 \<and> esize = 4 then Inr SQUARE4
      else if dim = 2 \<and> esize = 6 then Inr TRIANGLE6
      else if dim = 2 \<and> esize = 8 then Inr SQUARE8
      else if dim = 3 \<and> esize = 4 then Inr TETRA4
      else if dim = 3 \<and> esize = 5 then Inr PYRAMID5
      else if dim = 3 \<and> esize = 6 then Inr PRISMA6
      else if dim = 3 \<and> esize = 8 then Inr HEXA8
      else if dim = 3 \<and> esize = 10 then Inr TETRA10
      else if dim = 3 \<and> esize = 13 then Inr PYRAMID13
      else if dim = 3 \<and> esize = 15 then Inr PRISMA15
      else if dim = 3 \<and> esize = 20 then Inr HEXA20
      else Inl (UnrecognizedElementType dim esize))"

text \<open>The validity callback handed to \<^verbatim>\<open>MixedElementsParser::parse\<close>: for the file's
  reduced minimal dimension and a candidate record size \<open>n\<close> (the lambda's \<^verbatim>\<open>id\<close>) it
  returns \<open>n\<close> when the size is admitted and \<^verbatim>\<open>esint{}\<close>, that is \<open>0\<close>, otherwise.\<close>

definition valid :: "int \<Rightarrow> int \<Rightarrow> int" where
  "valid mindim n =
     (if mindim = 0 then (if n = 1 then n else 0)
      else if mindim = 1 then (if n = 2 \<or> n = 3 then n else 0)
      else if mindim = 2 then (if n = 3 \<or> n = 4 \<or> n = 6 \<or> n = 8 then n else 0)
      else if mindim = 3 then
        (if n = 4 \<or> n = 5 \<or> n = 6 \<or> n = 8 \<or> n = 10 \<or> n = 13 \<or> n = 15 \<or> n = 20
         then n else 0)
      else 0)"

text \<open>The scan of one file's decoded cell type codes (lines 314-318): the running
  \<^verbatim>\<open>_mindim\<close> and \<^verbatim>\<open>_maxdim\<close> of the file, started at 4 and 0.\<close>

definition dim_step :: "int \<times> int \<Rightarrow> int \<Rightarrow> int \<times> int" where
  "dim_step mm t = (min (fst mm) (dimension t), max (snd mm) (dimension t))"

definition dim_scan :: "int list \<Rightarrow> int \<times> int" where
  "dim_scan celltypes = foldl dim_step (4, 0) celltypes"

text \<open>Modelled from the spec: \<^verbatim>\<open>Communication::allReduce\<close> is not part of the file; the
  spec names it an element-wise min/max reduction across workers. For one file it
  combines the values of all workers (at least one) with the operation.\<close>

fun allReduce :: "(int \<Rightarrow> int \<Rightarrow> int) \<Rightarrow> int list \<Rightarrow> int" where
  "allReduce f (x # xs) = foldl f x xs"

text \<open>The reduced \<^verbatim>\<open>mindim\<close> and \<^verbatim>\<open>maxdim\<close> of one file, from the cell type slices
  that the workers decoded (lines 323-324).\<close>

definition global_dims :: "int list list \<Rightarrow> int \<times> int" where
  "global_dims slices =
     (allReduce min (map (\<lambda>s. fst (dim_scan s)) slices),
      allReduce max (map (\<lambda>s. snd (dim_scan s)) slices))"

text \<open>The loop of lines 326-330 over the files, from file index \<open>f\<close> on: the first file
  whose reduced dimensions differ ends the parse with the fatal error.\<close>

fun check_dims :: "nat \<Rightarrow> (int \<times> int) list \<Rightarrow> error + unit" where
  "check_dims f [] = Inr ()"
| "check_dims f (mm # rest) =
     (if fst mm \<noteq> snd mm then Inl (VariousDimension f) else check_dims (Suc f) rest)"

text \<open>The parse up to the emission of elements: \<open>files\<close> holds, per file, the cell type
  slices of the workers; \<open>emit\<close> stands for the rest of \<^verbatim>\<open>parse\<close> (lines 332-425), which
  is reached only when no file failed the dimension check and which alone calls
  \<^verbatim>\<open>_etype\<close>.\<close>

definition parse_dims :: "int list list list \<Rightarrow> ((int \<times> int) list \<Rightarrow> error + 'a) \<Rightarrow> error + 'a" where
  "parse_dims files emit =
     (let dims = map global_dims files in
      case check_dims 0 dims of Inl e \<Rightarrow> Inl e | Inr u \<Rightarrow> emit dims)"

text \<open>The loop of lines 354-360 over \<^verbatim>\<open>mixedparser.invalid\<close>: a warning is logged for
  every index whose entry differs from \<^verbatim>\<open>info::mpi::size\<close>. The result is the list of the
  indices warned about; the loop has no fatal exit.\<close>

definition warnings :: "int list \<Rightarrow> int \<Rightarrow> error + nat list" where
  "warnings invalid mpi_size = Inr (filter (\<lambda>i. invalid ! i \<noteq> mpi_size) [0..<length invalid])"

section \<open>Section records and the resolution of their ends\<close>

type_synonym size_t = "64 word"
type_synonym byte = "8 word"

text \<open>\<^verbatim>\<open>VTKLegacyGeometry::Keyword\<close> and the records derived from it. The fields \<^verbatim>\<open>begin\<close>
  and \<^verbatim>\<open>end\<close> are \<open>begin_byte\<close> and \<open>end_byte\<close> here, \<^verbatim>\<open>Points::datatype\<close> is
  \<open>datatype_p\<close>, \<^verbatim>\<open>Cells::size\<close> is \<open>size_c\<close>.\<close>

record Keyword =
  fileindex :: nat
  rank :: nat
  offset :: size_t
  begin_byte :: size_t
  end_byte :: size_t

datatype Datatype = UNKNOWN | FLOAT | DOUBLE

record Points = Keyword +
  nn :: size_t
  datatype_p :: Datatype

record Cells = Keyword +
  ne :: size_t
  size_c :: size_t

record CellTypes = Keyword +
  ne_t :: size_t

datatype DataSource = POINTS | CELLS

record Data = Keyword +
  source :: DataSource

text \<open>\<^verbatim>\<open>addoffset\<close>: every keyword appends its \<^verbatim>\<open>offset\<close>, the position of the keyword
  itself, to the list of its file. An index outside \<^verbatim>\<open>offsets\<close> is undefined behaviour in
  the source and \<open>None\<close> here.\<close>

fun addoffset :: "size_t list list \<Rightarrow> 'a Keyword_scheme list \<Rightarrow> size_t list list option" where
  "addoffset offsets [] = Some offsets"
| "addoffset offsets (keyword # keywords) =
     (if fileindex keyword < length offsets
      then addoffset (offsets[fileindex keyword := offsets ! fileindex keyword @ [offset keyword]])
             keywords
      else None)"

text \<open>\<^verbatim>\<open>std::lower_bound\<close> on a sorted list: the index of the first element that is not
  less than the value, the length of the list when there is none.\<close>

definition lower_bound :: "size_t list \<Rightarrow> size_t \<Rightarrow> nat" where
  "lower_bound xs v = length (takeWhile (\<lambda>x. x < v) xs)"

text \<open>\<^verbatim>\<open>setend\<close>: the end of every keyword becomes the element that \<^verbatim>\<open>lower_bound\<close> finds
  for the keyword's \<^verbatim>\<open>begin\<close>. Dereferencing the end iterator is \<open>None\<close>.\<close>

fun setend :: "size_t list list \<Rightarrow> 'a Keyword_scheme list \<Rightarrow> 'a Keyword_scheme list option" where
  "setend offsets [] = Some []"
| "setend offsets (keyword # keywords) =
     (if fileindex keyword < length offsets
         \<and> lower_bound (offsets ! fileindex keyword) (begin_byte keyword)
             < length (offsets ! fileindex keyword)
      then map_option
             ((#) (keyword\<lparr>end_byte :=
                 offsets ! fileindex keyword
                   ! lower_bound (offsets ! fileindex keyword) (begin_byte keyword)\<rparr>))
             (setend offsets keywords)
      else None)"

text \<open>The loop of lines 231-234: every file's list receives the file's final byte offset
  (\<^verbatim>\<open>_pack.files[i]->distribution.back()\<close>, here \<open>file_ends ! i\<close>) and is sorted.\<close>

definition close_offsets :: "size_t list \<Rightarrow> size_t list list \<Rightarrow> size_t list list option" where
  "close_offsets file_ends offsets =
     (if length offsets \<le> length file_ends
      then Some (map (\<lambda>i. sort (offsets ! i @ [file_ends ! i])) [0..<length offsets])
      else None)"

text \<open>Lines 229-235 of \<^verbatim>\<open>VTKLegacyGeometry::scan\<close>, on the synchronized keyword lists.\<close>

definition scan_ends ::
  "size_t list \<Rightarrow> nat \<Rightarrow> Points list \<Rightarrow> Cells list \<Rightarrow> CellTypes list \<Rightarrow> Data list \<Rightarrow> Data list
     \<Rightarrow> (Points list \<times> Cells list \<times> CellTypes list \<times> Data list \<times> Data list) option" where
  "scan_ends file_ends pack_size points cells cellTypes pointData cellData =
     Option.bind (addoffset (replicate pack_size []) points) (\<lambda>o1.
     Option.bind (addoffset o1 cells) (\<lambda>o2.
     Option.bind (addoffset o2 cellTypes) (\<lambda>o3.
     Option.bind (addoffset o3 pointData) (\<lambda>o4.
     Option.bind (addoffset o4 cellData) (\<lambda>o5.
     Option.bind (close_offsets file_ends o5) (\<lambda>offsets.
     Option.bind (setend offsets points) (\<lambda>points'.
     Option.bind (setend offsets cells) (\<lambda>cells'.
     Option.bind (setend offsets cellTypes) (\<lambda>cellTypes'.
     Option.bind (setend offsets pointData) (\<lambda>pointData'.
     Option.bind (setend offsets cellData) (\<lambda>cellData'.
     Some (points', cells', cellTypes', pointData', cellData'))))))))))))"

section \<open>Binary decoding\<close>

text \<open>\<^verbatim>\<open>swap\<close> on the object representation of a value, a list of \<^verbatim>\<open>sizeof(T)\<close> bytes:
  byte \<open>i\<close> of the result is byte \<^verbatim>\<open>sizeof(T) - i - 1\<close> of the argument.\<close>

definition swap :: "'a list \<Rightarrow> 'a list" where
  "swap t = map (\<lambda>i. t ! (length t - i - 1)) [0..<length t]"

text \<open>\<^verbatim>\<open>round\<close> on \<^verbatim>\<open>size_t\<close>: the subtraction wraps around when \<open>current < start\<close>.\<close>

definition round :: "size_t \<Rightarrow> size_t \<Rightarrow> size_t \<Rightarrow> size_t" where
  "round current start chunk =
     (if (current - start) mod chunk \<noteq> 0
      then current + (chunk - (current - start) mod chunk)
      else current)"

text \<open>What \<^verbatim>\<open>read\<close> uses of \<^verbatim>\<open>InputFilePack\<close>: the cumulative offsets of the workers'
  windows in the current file, and the bytes at \<^verbatim>\<open>_pack.begin\<close>, which are the worker's
  window followed by the slack that the buffer holds beyond it.\<close>

record InputFilePack =
  distribution :: "size_t list"
  bytes :: "byte list"

text \<open>\<^verbatim>\<open>memcpy\<close> of \<open>n\<close> bytes at position \<open>pos\<close> of the buffer; a read beyond the buffer
  is \<open>None\<close>.\<close>

definition memcpy :: "byte list \<Rightarrow> nat \<Rightarrow> nat \<Rightarrow> byte list option" where
  "memcpy src pos n = (if pos + n \<le> length src then Some (take n (drop pos src)) else None)"

text \<open>The first \<open>n\<close> elements of \<open>sz\<close> bytes each of a copied buffer (\<^verbatim>\<open>data[i]\<close>).\<close>

definition elements :: "nat \<Rightarrow> nat \<Rightarrow> byte list \<Rightarrow> byte list list" where
  "elements sz n buf = map (\<lambda>i. take sz (drop (i * sz) buf)) [0..<n]"

text \<open>The rounded \<^verbatim>\<open>begin\<close> and \<^verbatim>\<open>end\<close> of \<^verbatim>\<open>read\<close> (lines 259-263) for the worker of
  rank \<open>r\<close>.\<close>

definition read_range :: "nat \<Rightarrow> InputFilePack \<Rightarrow> 'k Keyword_scheme \<Rightarrow> size_t \<Rightarrow> size_t \<times> size_t" where
  "read_range r pack keyword align =
     (round (max (begin_byte keyword) (distribution pack ! r)) (begin_byte keyword) align,
      round (min (end_byte keyword) (distribution pack ! (r + 1))) (begin_byte keyword) align)"

text \<open>\<^verbatim>\<open>read<Input, Output>\<close>: \<open>sizeof_Input\<close> is \<^verbatim>\<open>sizeof(Input)\<close>, \<open>convert\<close> turns the object
  representation of an \<^verbatim>\<open>Input\<close> value into the \<^verbatim>\<open>Output\<close> value. \<open>None\<close> stands for
  undefined behaviour: an index outside \<^verbatim>\<open>distribution\<close>, a division by zero, a copy that
  leaves the buffer or that is longer than the vector \<^verbatim>\<open>data\<close>.\<close>

definition read ::
  "nat \<Rightarrow> (byte list \<Rightarrow> 'out) \<Rightarrow> nat \<Rightarrow> InputFilePack \<Rightarrow> 'k Keyword_scheme \<Rightarrow> 'out list \<Rightarrow> size_t
     \<Rightarrow> 'out list option" where
  "read sizeof_Input convert r pack keyword output align =
     (if r + 1 < length (distribution pack) \<and> 0 < sizeof_Input \<and> align \<noteq> 0 then
        (case read_range r pack keyword align of (b, e) \<Rightarrow>
           if b < e then
             if unat (e - b) mod sizeof_Input = 0 then
               map_option
                 (\<lambda>data. output @ map (\<lambda>t. convert (swap t))
                    (elements sizeof_Input (unat (e - b) div sizeof_Input) data))
                 (memcpy (bytes pack) (unat (b - distribution pack ! r)) (unat (e - b)))
             else None
           else Some output)
      else None)"

text \<open>\<^verbatim>\<open>readMore<Input, Output>\<close>: \<open>n\<close> further values from the rounded end on.\<close>

definition readMore ::
  "nat \<Rightarrow> (byte list \<Rightarrow> 'out) \<Rightarrow> nat \<Rightarrow> InputFilePack \<Rightarrow> 'k Keyword_scheme \<Rightarrow> 'out list \<Rightarrow> size_t
     \<Rightarrow> size_t \<Rightarrow> 'out list option" where
  "readMore sizeof_Input convert r pack keyword output align n =
     (if r + 1 < length (distribution pack) \<and> 0 < sizeof_Input \<and> align \<noteq> 0 then
        map_option
          (\<lambda>data. output @ map (\<lambda>t. convert (swap t)) (elements sizeof_Input (unat n) data))
          (memcpy (bytes pack)
             (unat (snd (read_range r pack keyword align) - distribution pack ! r))
             (unat n * sizeof_Input))
      else None)"

text \<open>The big-endian encoding of a value, as the format stores it: the bytes of the
  (little-endian) host representation in reverse order. This follows the spec's words,
  for the round trip of binary payloads.\<close>

definition big_endian :: "byte list \<Rightarrow> byte list" where
  "big_endian t = rev t"

section \<open>Statements about the resolved ends\<close>

text \<open>The keyword offsets that the keywords of file \<open>f\<close> contribute to \<^verbatim>\<open>offsets[f]\<close>.\<close>

definition file_offsets :: "nat \<Rightarrow> 'a Keyword_scheme list \<Rightarrow> size_t list" where
  "file_offsets f keywords = map offset (filter (\<lambda>k. fileindex k = f) keywords)"

text \<open>The boundaries of file \<open>f\<close>: the keyword offsets of all its records and its final
  byte offset.\<close>

definition boundaries ::
  "size_t list \<Rightarrow> Points list \<Rightarrow> Cells list \<Rightarrow> CellTypes list \<Rightarrow> Data list \<Rightarrow> Data list
     \<Rightarrow> nat \<Rightarrow> size_t set" where
  "boundaries file_ends points cells cellTypes pointData cellData f =
     set (file_offsets f points @ file_offsets f cells @ file_offsets f cellTypes
          @ file_offsets f pointData @ file_offsets f cellData @ [file_ends ! f])"

text \<open>The resolved list \<open>ks'\<close> is \<open>ks\<close> with new ends, and each end is the least boundary of
  the record's file that is not less than the record's \<^verbatim>\<open>begin\<close>.\<close>

definition ends_resolved ::
  "(nat \<Rightarrow> size_t set) \<Rightarrow> 'a Keyword_scheme list \<Rightarrow> 'a Keyword_scheme list \<Rightarrow> bool" where
  "ends_resolved B ks ks' =
     (length ks' = length ks \<and>
      (\<forall>i<length ks.
         ks' ! i = (ks ! i)\<lparr>end_byte := end_byte (ks' ! i)\<rparr>
         \<and> end_byte (ks' ! i) \<in> B (fileindex (ks ! i))
         \<and> begin_byte (ks ! i) \<le> end_byte (ks' ! i)
         \<and> (\<forall>b\<in>B (fileindex (ks ! i)). begin_byte (ks ! i) \<le> b \<longrightarrow> end_byte (ks' ! i) \<le> b)))"

text \<open>The keywords name files of the pack and begin at or before the end of their file.\<close>

definition keywords_ok :: "size_t list \<Rightarrow> nat \<Rightarrow> 'a Keyword_scheme list \<Rightarrow> bool" where
  "keywords_ok file_ends pack_size ks =
     (\<forall>k\<in>set ks. fileindex k < pack_size \<and> begin_byte k \<le> file_ends ! fileindex k)"

text \<open>All records of the five lists, as plain keywords; the condition that every record
  begins at or after its own keyword and at or before every later keyword of its file;
  and the ordering of the payload ranges of a file by keyword offset.\<close>

definition all_keywords ::
  "Points list \<Rightarrow> Cells list \<Rightarrow> CellTypes list \<Rightarrow> Data list \<Rightarrow> Data list \<Rightarrow> Keyword list" where
  "all_keywords points cells cellTypes pointData cellData =
     map Keyword.truncate points @ map Keyword.truncate cells @ map Keyword.truncate cellTypes
     @ map Keyword.truncate pointData @ map Keyword.truncate cellData"

definition headers_clear :: "Keyword list \<Rightarrow> bool" where
  "headers_clear ks =
     (\<forall>k\<in>set ks. offset k \<le> begin_byte k
        \<and> (\<forall>k2\<in>set ks. fileindex k2 = fileindex k \<and> offset k < offset k2
              \<longrightarrow> begin_byte k \<le> offset k2))"

definition ranges_ordered :: "Keyword list \<Rightarrow> bool" where
  "ranges_ordered ks =
     (\<forall>k1\<in>set ks. \<forall>k2\<in>set ks. fileindex k1 = fileindex k2 \<and> offset k1 < offset k2
        \<longrightarrow> begin_byte k1 \<le> end_byte k1 \<and> end_byte k1 \<le> offset k2
            \<and> offset k2 \<le> begin_byte k2)"

text \<open>The resolved keyword \<open>t'\<close> is \<open>t\<close> with the least boundary as its end.\<close>

definition resolved_from :: "(nat \<Rightarrow> size_t set) \<Rightarrow> Keyword \<Rightarrow> Keyword \<Rightarrow> bool" where
  "resolved_from B t t' =
     (fileindex t' = fileindex t \<and> offset t' = offset t \<and> begin_byte t' = begin_byte t
      \<and> begin_byte t \<le> end_byte t'
      \<and> (\<forall>b\<in>B (fileindex t). begin_byte t \<le> b \<longrightarrow> end_byte t' \<le> b))"

text \<open>The end as the spec words it: the smallest element, among the \<^verbatim>\<open>begin\<close>s of the
  file's records and the file's final byte offset, that is strictly greater than the
  record's own \<^verbatim>\<open>begin\<close>.\<close>

definition spec_end :: "size_t list \<Rightarrow> size_t \<Rightarrow> size_t \<Rightarrow> size_t option" where
  "spec_end begins file_end b = List.find (\<lambda>x. b < x) (sort (begins @ [file_end]))"

section \<open>Node identifiers\<close>

text \<open>\<^verbatim>\<open>Format\<close> of the header; \<^verbatim>\<open>Format::UNKNOWN\<close> is \<open>UNKNOWN_Format\<close> here.\<close>

datatype Format = ASCII | BINARY | UNKNOWN_Format

text \<open>Lines 365-366 and 389-391: \<open>npoints\<close> is \<^verbatim>\<open>npoints[fileindex]\<close> after the exclusive
  scan, \<open>psize\<close> is \<^verbatim>\<open>points[fileindex].size()\<close>; all arithmetic is that of \<^verbatim>\<open>size_t\<close>.\<close>

definition pbegin :: "size_t \<Rightarrow> size_t" where
  "pbegin npoints = (3 - npoints mod 3) mod 3"

definition pmissing :: "size_t \<Rightarrow> size_t \<Rightarrow> size_t" where
  "pmissing npoints psize = (3 - (psize - pbegin npoints) mod 3) mod 3"

text \<open>The node identifiers that the loop of lines 392-398 appends to \<^verbatim>\<open>mesh.nIDs\<close> for one
  file.\<close>

definition nIDs :: "size_t \<Rightarrow> size_t \<Rightarrow> size_t \<Rightarrow> size_t list" where
  "nIDs nidoffset npoints psize =
     (let csize = (psize - pbegin npoints) div 3;
          noffset = (npoints + pbegin npoints) div 3
      in map (\<lambda>i. nidoffset + of_nat i + noffset) [0..<unat csize])"

text \<open>The loop of lines 387-425 over the files, for the node identifiers: each file is
  given by \<^verbatim>\<open>npoints[f]\<close>, \<^verbatim>\<open>points[f].size()\<close> and \<^verbatim>\<open>_points[f].nn\<close>, and \<^verbatim>\<open>nidoffset\<close> grows
  by \<^verbatim>\<open>nn\<close> after each file. The result lists the identifiers file by file;
  \<^verbatim>\<open>mesh.nIDs\<close> is their concatenation.\<close>

fun fill_nIDs :: "size_t \<Rightarrow> (size_t \<times> size_t \<times> size_t) list \<Rightarrow> size_t list list" where
  "fill_nIDs nidoffset [] = []"
| "fill_nIDs nidoffset ((npoints, psize, nn_f) # files) =
     nIDs nidoffset npoints psize # fill_nIDs (nidoffset + nn_f) files"

text \<open>Modelled from the spec: \<^verbatim>\<open>Communication::exscan\<close> is not part of the file; the spec
  names it an exclusive prefix sum across workers. \<open>values\<close> holds the workers' values
  in rank order, the result is what worker \<open>k\<close> receives.\<close>

definition exscan :: "size_t list \<Rightarrow> nat \<Rightarrow> size_t" where
  "exscan values k = sum_list (take k values)"

text \<open>Modelled from the spec: \<^verbatim>\<open>ASCIIParser::addmore\<close> is not part of the file; by the
  spec the completion read appends the requested number of further values. The size of
  \<^verbatim>\<open>points[f]\<close> after lines 363-377: an ASCII file receives \<^verbatim>\<open>pmissing\<close> more values, for a
  binary file the points are left as they are.\<close>

definition completed_size :: "Format \<Rightarrow> size_t \<Rightarrow> size_t \<Rightarrow> size_t" where
  "completed_size format npoints psize =
     (if format = ASCII then psize + pmissing npoints psize else psize)"

text \<open>The node identifiers of worker \<open>k\<close> for one file, where \<open>sizes\<close> holds, in rank
  order, the sizes of the workers' decoded \<^verbatim>\<open>points[f]\<close> at line 313.\<close>

definition worker_nIDs :: "Format \<Rightarrow> size_t \<Rightarrow> size_t list \<Rightarrow> nat \<Rightarrow> size_t list" where
  "worker_nIDs format nidoffset sizes k =
     nIDs nidoffset (exscan sizes k) (completed_size format (exscan sizes k) (sizes ! k))"

text \<open>For the statements: the number of whole or begun triples among \<open>n\<close> values, and the
  number of values that the workers before \<open>k\<close> decoded.\<close>

definition c3 :: "nat \<Rightarrow> nat" where
  "c3 n = (n + 2) div 3"

definition values_before :: "size_t list \<Rightarrow> nat \<Rightarrow> nat" where
  "values_before sizes k = sum_list (map unat (take k sizes))"

section \<open>Boundary completion\<close>

text \<open>Modelled from the spec: \<^verbatim>\<open>InputFilePack\<close> and its loading are not part of the file; by
  the spec every worker reads the raw bytes of its window and of a slack region beyond
  it. The buffer of the worker of rank \<open>r\<close> holds the bytes of the file from the start of
  its window on; the slack is taken to reach the end of the file.\<close>

definition worker_pack :: "size_t list \<Rightarrow> byte list \<Rightarrow> nat \<Rightarrow> InputFilePack" where
  "worker_pack dist file r = \<lparr>distribution = dist, bytes = drop (unat (dist ! r)) file\<rparr>"

text \<open>Modelled from the spec: \<^verbatim>\<open>ASCIIParser::addmore\<close> is not part of the file; by the spec
  the completion step reads the remainder of the given length from the bytes just past
  the worker's window. \<open>following\<close> holds the values that follow the worker's own in the
  text.\<close>

definition addmore :: "'v list \<Rightarrow> 'v list \<Rightarrow> size_t \<Rightarrow> 'v list" where
  "addmore vals following n = vals @ take (unat n) following"

text \<open>Lines 363-377 for the points of one file: an ASCII file receives \<^verbatim>\<open>pmissing\<close> more
  values, the points of a binary file are left as \<^verbatim>\<open>read\<close> decoded them.\<close>

definition complete_points :: "Format \<Rightarrow> size_t \<Rightarrow> 'v list \<Rightarrow> 'v list \<Rightarrow> 'v list" where
  "complete_points format npoints points following =
     (if format = ASCII
      then addmore points following (pmissing npoints (of_nat (length points)))
      else points)"

text \<open>The coordinates that the loop of lines 392-398 appends to \<^verbatim>\<open>mesh.coordinates\<close>; an
  index outside \<^verbatim>\<open>points[f]\<close> is \<open>None\<close>.\<close>

definition coordinates :: "size_t \<Rightarrow> 'v list \<Rightarrow> ('v \<times> 'v \<times> 'v) list option" where
  "coordinates npoints points =
     (let pb = unat (pbegin npoints);
          csize = unat ((of_nat (length points) - pbegin npoints) div 3)
      in if 3 * csize + pb \<le> length points
         then Some (map (\<lambda>i. (points ! (3 * i + pb + 0), points ! (3 * i + pb + 1),
                               points ! (3 * i + pb + 2))) [0..<csize])
         else None)"

text \<open>For the statements: the whole triples of a list of values, and the least multiple of
  \<open>c\<close> that is not below \<open>n\<close>.\<close>

definition triples :: "'v list \<Rightarrow> ('v \<times> 'v \<times> 'v) list" where
  "triples xs = map (\<lambda>i. (xs ! (3 * i), xs ! (3 * i + 1), xs ! (3 * i + 2))) [0..<length xs div 3]"

definition ceil_to :: "nat \<Rightarrow> nat \<Rightarrow> nat" where
  "ceil_to c n = ((n + c - 1) div c) * c"

section \<open>Properties of the dimension consensus\<close>

lemma foldl_min_Min: "foldl min (a::int) xs = Min (insert a (set xs))"
proof (induction xs arbitrary: a)
  case Nil show ?case by simp
next
  case (Cons x xs)
  have "Min (insert (min a x) (set xs)) = Min (insert a (insert x (set xs)))"
    by (cases "set xs = {}") (simp_all add: min.assoc)
  with Cons show ?case by simp
qed

lemma foldl_max_Max: "foldl max (a::int) xs = Max (insert a (set xs))"
proof (induction xs arbitrary: a)
  case Nil show ?case by simp
next
  case (Cons x xs)
  have "Max (insert (max a x) (set xs)) = Max (insert a (insert x (set xs)))"
    by (cases "set xs = {}") (simp_all add: max.assoc)
  with Cons show ?case by simp
qed

lemma foldl_dim_step:
  "foldl dim_step (a, b) s = (foldl min a (map dimension s), foldl max b (map dimension s))"
  by (induction s arbitrary: a b) (simp_all add: dim_step_def)

lemma dim_scan_Min_Max:
  "dim_scan s = (Min (insert 4 (dimension ` set s)), Max (insert 0 (dimension ` set s)))"
  by (simp add: dim_scan_def foldl_dim_step foldl_min_Min foldl_max_Max)

lemma dimension_range: "- 1 \<le> dimension t \<and> dimension t \<le> 3"
  by (simp add: dimension_def)

lemma allReduce_min: "xs \<noteq> [] \<Longrightarrow> allReduce min xs = Min (set xs)"
  by (cases xs) (simp_all add: foldl_min_Min)

lemma allReduce_max: "xs \<noteq> [] \<Longrightarrow> allReduce max xs = Max (set xs)"
  by (cases xs) (simp_all add: foldl_max_Max)

lemma dim_scan_bounds: "- 1 \<le> fst (dim_scan s) \<and> fst (dim_scan s) \<le> 4 \<and> 0 \<le> snd (dim_scan s) \<and> snd (dim_scan s) \<le> 3"
  using dimension_range by (auto simp: dim_scan_Min_Max)

lemma dim_scan_same:
  assumes "s \<noteq> []" "\<forall>t\<in>set s. dimension t = d" "0 \<le> d"
  shows "dim_scan s = (d, d)"
proof -
  have "dimension ` set s = {d}" using assms by (cases s) auto
  moreover have "d \<le> 3" using assms dimension_range[of "hd s"] by (cases s) auto
  ultimately show ?thesis using assms by (simp add: dim_scan_Min_Max)
qed

lemma Min_of_Mins:
  fixes a :: int
  assumes "finite I" "I \<noteq> {}" "\<And>i. i \<in> I \<Longrightarrow> finite (A i)"
  shows "Min ((\<lambda>i. Min (insert a (A i))) ` I) = Min (insert a (\<Union>i\<in>I. A i))"
proof (rule antisym)
  let ?L = "Min ((\<lambda>i. Min (insert a (A i))) ` I)"
  let ?R = "Min (insert a (\<Union>i\<in>I. A i))"
  have finU: "finite (insert a (\<Union>i\<in>I. A i))" using assms by simp
  have finI: "finite ((\<lambda>i. Min (insert a (A i))) ` I)" using assms by simp
  have "?R \<in> insert a (\<Union>i\<in>I. A i)" using finU by (rule Min_in) simp
  then consider "?R = a" | i where "i \<in> I" "?R \<in> A i" by auto
  then show "?L \<le> ?R"
  proof cases
    case 1
    obtain i where i: "i \<in> I" using assms(2) by auto
    have "?L \<le> Min (insert a (A i))" using finI i by (simp add: Min_le)
    also have "\<dots> \<le> a" using assms(3)[OF i] by simp
    finally show ?thesis using 1 by simp
  next
    case 2
    have "?L \<le> Min (insert a (A i))" using finI 2 by (simp add: Min_le)
    also have "\<dots> \<le> ?R" using assms(3)[OF 2(1)] 2(2) by simp
    finally show ?thesis .
  qed
  have "?L \<in> (\<lambda>i. Min (insert a (A i))) ` I" using finI assms(2) by (intro Min_in) simp_all
  then obtain i where i: "i \<in> I" "?L = Min (insert a (A i))" by auto
  have "Min (insert a (A i)) \<in> insert a (A i)" using assms(3)[OF i(1)] by (intro Min_in) simp_all
  then have "?L \<in> insert a (\<Union>i\<in>I. A i)" using i by auto
  then show "?R \<le> ?L" using finU by (simp only: Min_le)
qed

lemma Max_of_Maxs:
  fixes a :: int
  assumes "finite I" "I \<noteq> {}" "\<And>i. i \<in> I \<Longrightarrow> finite (A i)"
  shows "Max ((\<lambda>i. Max (insert a (A i))) ` I) = Max (insert a (\<Union>i\<in>I. A i))"
proof (rule antisym)
  let ?L = "Max ((\<lambda>i. Max (insert a (A i))) ` I)"
  let ?R = "Max (insert a (\<Union>i\<in>I. A i))"
  have finU: "finite (insert a (\<Union>i\<in>I. A i))" using assms by simp
  have finI: "finite ((\<lambda>i. Max (insert a (A i))) ` I)" using assms by simp
  have "?R \<in> insert a (\<Union>i\<in>I. A i)" using finU by (rule Max_in) simp
  then consider "?R = a" | i where "i \<in> I" "?R \<in> A i" by auto
  then show "?R \<le> ?L"
  proof cases
    case 1
    obtain i where i: "i \<in> I" using assms(2) by auto
    have "a \<le> Max (insert a (A i))" using assms(3)[OF i] by simp
    also have "\<dots> \<le> ?L" using finI i by (simp add: Max_ge)
    finally show ?thesis using 1 by simp
  next
    case 2
    have "?R \<le> Max (insert a (A i))" using assms(3)[OF 2(1)] 2(2) by simp
    also have "\<dots> \<le> ?L" using finI 2 by (simp add: Max_ge)
    finally show ?thesis .
  qed
  have "?L \<in> (\<lambda>i. Max (insert a (A i))) ` I" using finI assms(2) by (intro Max_in) simp_all
  then obtain i where i: "i \<in> I" "?L = Max (insert a (A i))" by auto
  have "Max (insert a (A i)) \<in> insert a (A i)" using assms(3)[OF i(1)] by (intro Max_in) simp_all
  then have "?L \<in> insert a (\<Union>i\<in>I. A i)" using i by auto
  then show "?L \<le> ?R" using finU by (simp only: Max_ge)
qed

lemma global_dims_Min_Max:
  assumes "slices \<noteq> []"
  shows "global_dims slices =
    (Min (insert 4 (dimension ` (\<Union>s\<in>set slices. set s))), Max (insert 0 (dimension ` (\<Union>s\<in>set slices. set s))))"
proof -
  have 1: "allReduce min (map (\<lambda>s. fst (dim_scan s)) slices)
      = Min ((\<lambda>s. Min (insert 4 (dimension ` set s))) ` set slices)"
    using assms by (simp add: allReduce_min dim_scan_Min_Max)
  have 2: "allReduce max (map (\<lambda>s. snd (dim_scan s)) slices)
      = Max ((\<lambda>s. Max (insert 0 (dimension ` set s))) ` set slices)"
    using assms by (simp add: allReduce_max dim_scan_Min_Max)
  have 3: "(\<Union>s\<in>set slices. dimension ` set s) = dimension ` (\<Union>s\<in>set slices. set s)" by auto
  show ?thesis
    unfolding global_dims_def 1 2
    using assms Min_of_Mins[of "set slices" "\<lambda>s. dimension ` set s" 4]
      Max_of_Maxs[of "set slices" "\<lambda>s. dimension ` set s" 0]
    by (simp add: 3)
qed

lemma check_dims_Inl:
  "check_dims k dims = Inl e \<Longrightarrow>
     \<exists>i<length dims. e = VariousDimension (k + i) \<and> fst (dims ! i) \<noteq> snd (dims ! i)
        \<and> (\<forall>j<i. fst (dims ! j) = snd (dims ! j))"
proof (induction dims arbitrary: k)
  case Nil then show ?case by simp
next
  case (Cons mm rest)
  show ?case
  proof (cases "fst mm \<noteq> snd mm")
    case True
    with Cons.prems have "e = VariousDimension k" by simp
    with True show ?thesis by (intro exI[of _ 0]) simp
  next
    case False
    with Cons.prems have "check_dims (Suc k) rest = Inl e" by simp
    from Cons.IH[OF this] obtain i where i: "i < length rest" "e = VariousDimension (Suc k + i)"
      "fst (rest ! i) \<noteq> snd (rest ! i)" "\<forall>j<i. fst (rest ! j) = snd (rest ! j)" by blast
    have "\<forall>j<Suc i. fst ((mm # rest) ! j) = snd ((mm # rest) ! j)"
      using False i(4) by (auto simp: nth_Cons split: nat.splits)
    with i show ?thesis by (intro exI[of _ "Suc i"]) simp
  qed
qed

lemma check_dims_Inr:
  "check_dims k dims = Inr u \<longleftrightarrow> (\<forall>mm\<in>set dims. fst mm = snd mm)"
  by (induction dims arbitrary: k) auto

lemma check_dims_first:
  assumes "i < length dims" "fst (dims ! i) \<noteq> snd (dims ! i)" "\<forall>j<i. fst (dims ! j) = snd (dims ! j)"
  shows "check_dims k dims = Inl (VariousDimension (k + i))"
proof (cases "check_dims k dims")
  case (Inl e)
  from check_dims_Inl[OF this] obtain i' where i': "i' < length dims" "e = VariousDimension (k + i')"
    "fst (dims ! i') \<noteq> snd (dims ! i')" "\<forall>j<i'. fst (dims ! j) = snd (dims ! j)" by blast
  have "i' = i" using assms i' by (meson linorder_neqE_nat)
  with Inl i' show ?thesis by simp
next
  case (Inr u)
  then have "\<forall>mm\<in>set dims. fst mm = snd mm" by (simp add: check_dims_Inr)
  with assms show ?thesis by (metis nth_mem)
qed

lemma valid_table:
  "valid d n =
     (if (d = 0 \<and> n = 1) \<or> (d = 1 \<and> n \<in> {2, 3}) \<or> (d = 2 \<and> n \<in> {3, 4, 6, 8})
         \<or> (d = 3 \<and> n \<in> {4, 5, 6, 8, 10, 13, 15, 20}) then n else 0)"
  by (simp add: valid_def)

text \<open>C3: the validity callback accepts a candidate record size (returns it, a non-zero
  value) exactly for dimension 0 and size 1, dimension 1 and sizes 2, 3, dimension 2 and
  sizes 3, 4, 6, 8, dimension 3 and sizes 4, 5, 6, 8, 10, 13, 15, 20; every other pair
  of dimension and size is rejected (the callback returns 0).\<close>

theorem valid_accepts:
  "((valid d n \<noteq> 0) =
     ((d = 0 \<and> n = 1) \<or> (d = 1 \<and> n \<in> {2, 3}) \<or> (d = 2 \<and> n \<in> {3, 4, 6, 8})
         \<or> (d = 3 \<and> n \<in> {4, 5, 6, 8, 10, 13, 15, 20})))
   \<and> (valid d n = n \<or> valid d n = 0)"
  by (auto simp add: valid_def)

text \<open>C9: a cell type code outside the lookup set has dimension \<open>-1\<close>; a file with such a
  code in some worker's slice has reduced minimal dimension \<open>-1\<close>, different from the
  reduced maximal dimension, and the parse ends with the fatal error of various element
  dimensions (for this file or an earlier one), whatever the later stages would report,
  so never with the error of \<^verbatim>\<open>_etype\<close>.\<close>

theorem unrecognized_code:
  assumes "f < length files" "s \<in> set (files ! f)" "u \<in> set s"
    and "u \<notin> {1, 3, 21, 9, 23, 5, 22, 10, 24, 14, 27, 13, 26, 12, 25}"
  shows "dimension u = - 1
    \<and> fst (global_dims (files ! f)) = - 1
    \<and> fst (global_dims (files ! f)) \<noteq> snd (global_dims (files ! f))
    \<and> (\<exists>g\<le>f. parse_dims files emit = Inl (VariousDimension g))
    \<and> parse_dims files emit \<noteq> Inl (UnrecognizedElementType d n)"
proof -
  have u: "dimension u = - 1" using assms(4) by (simp add: dimension_def)
  have ne: "files ! f \<noteq> []" using assms(2) by auto
  let ?D = "dimension ` (\<Union>s\<in>set (files ! f). set s)"
  have in_D: "- 1 \<in> ?D" using assms(2,3) u by force
  have "\<forall>y\<in>insert 4 ?D. - 1 \<le> y" using dimension_range by auto
  then have "Min (insert 4 ?D) = - 1" using in_D by (intro Min_eqI) auto
  then have mn: "fst (global_dims (files ! f)) = - 1" by (simp add: global_dims_Min_Max[OF ne])
  have "0 \<le> Max (insert 0 ?D)" by simp
  then have mx: "0 \<le> snd (global_dims (files ! f))" by (simp add: global_dims_Min_Max[OF ne])
  with mn have neq: "fst (global_dims (files ! f)) \<noteq> snd (global_dims (files ! f))" by simp
  let ?dims = "map global_dims files"
  have "\<not> (\<forall>mm\<in>set ?dims. fst mm = snd mm)" using neq assms(1) by auto
  then obtain e where e: "check_dims 0 ?dims = Inl e"
    using check_dims_Inr[of 0 ?dims] by (cases "check_dims 0 ?dims") auto
  from check_dims_Inl[OF e] obtain i where i: "i < length ?dims" "e = VariousDimension i"
    "\<forall>j<i. fst (?dims ! j) = snd (?dims ! j)" by auto
  have "i \<le> f" using i(3) neq assms(1) by (metis nth_map not_le_imp_less)
  then have ab: "\<exists>g\<le>f. parse_dims files emit = Inl (VariousDimension g)"
    using e i(2) by (auto simp: parse_dims_def)
  then have "parse_dims files emit \<noteq> Inl (UnrecognizedElementType d n)" by auto
  with u mn neq ab show ?thesis by simp
qed

text \<open>An instance of C9: one file, two workers, the first slice holds a triangle (5) and
  the unlisted code 7.\<close>

theorem unrecognized_code_witness:
  "dimension 7 = - 1
    \<and> fst (global_dims ([[[5, 7], [9]]] ! 0)) = - 1
    \<and> fst (global_dims ([[[5, 7], [9]]] ! 0)) \<noteq> snd (global_dims ([[[5, 7], [9]]] ! 0))
    \<and> parse_dims [[[5, 7], [9]]] (\<lambda>dims. Inl (UnrecognizedElementType 2 5) :: error + unit)
         = Inl (VariousDimension 0)"
  using unrecognized_code [of 0 "[[[5, 7], [9]]]" "[5, 7]" 7
      "\<lambda>dims. Inl (UnrecognizedElementType 2 5) :: error + unit" 2 5]
  by simp

text \<open>C5, as stated, fails: a file whose two cells both have the unlisted type 7 has cell
  type codes of one and the same dimension value, and the dimension check still reports
  the fatal error, since the reduced minimum is \<open>-1\<close> and the reduced maximum stays at its
  initial 0.\<close>

theorem dimension_consensus_counterexample:
  "dimension 7 = dimension 7 \<and> global_dims [[7, 7]] = (- 1, 0)
     \<and> check_dims 0 (map global_dims [[[7, 7]]]) = Inl (VariousDimension 0)"
  by (simp add: global_dims_def dim_scan_def dim_step_def dimension_def)

text \<open>C5, amended: for a file with at least one worker, if the reduced minimal and maximal
  dimensions differ then the check loop ends with the fatal error, for this file when no
  earlier file fails; if the file has at least one cell type code and all its codes have
  the same dimension \<open>d \<ge> 0\<close> (all are listed codes), both reduced dimensions are \<open>d\<close> and no
  such error is reported for the file.\<close>

theorem dimension_consensus:
  assumes "f < length files" and "files ! f \<noteq> []"
  shows "(fst (global_dims (files ! f)) \<noteq> snd (global_dims (files ! f)) \<longrightarrow>
            (\<exists>g\<le>f. check_dims 0 (map global_dims files) = Inl (VariousDimension g))
          \<and> ((\<forall>g<f. fst (global_dims (files ! g)) = snd (global_dims (files ! g))) \<longrightarrow>
               check_dims 0 (map global_dims files) = Inl (VariousDimension f)))
       \<and> ((\<exists>s\<in>set (files ! f). s \<noteq> []) \<and> 0 \<le> d
            \<and> (\<forall>s\<in>set (files ! f). \<forall>t\<in>set s. dimension t = d) \<longrightarrow>
            global_dims (files ! f) = (d, d)
          \<and> check_dims 0 (map global_dims files) \<noteq> Inl (VariousDimension f))"
proof (intro conjI impI)
  let ?dims = "map global_dims files"
  assume neq: "fst (global_dims (files ! f)) \<noteq> snd (global_dims (files ! f))"
  then have "\<not> (\<forall>mm\<in>set ?dims. fst mm = snd mm)" using assms(1) by auto
  then obtain e where e: "check_dims 0 ?dims = Inl e"
    using check_dims_Inr[of 0 ?dims] by (cases "check_dims 0 ?dims") auto
  from check_dims_Inl[OF e] obtain i where i: "i < length ?dims" "e = VariousDimension i"
    "\<forall>j<i. fst (?dims ! j) = snd (?dims ! j)" by auto
  have "i \<le> f" using i(3) neq assms(1) by (metis nth_map not_le_imp_less)
  then show "\<exists>g\<le>f. check_dims 0 ?dims = Inl (VariousDimension g)" using e i(2) by auto
  assume "\<forall>g<f. fst (global_dims (files ! g)) = snd (global_dims (files ! g))"
  then have "\<forall>j<f. fst (?dims ! j) = snd (?dims ! j)" using assms(1) by simp
  then show "check_dims 0 ?dims = Inl (VariousDimension f)"
    using check_dims_first[of f ?dims 0] neq assms(1) by simp
next
  let ?dims = "map global_dims files"
  assume h: "(\<exists>s\<in>set (files ! f). s \<noteq> []) \<and> 0 \<le> d
            \<and> (\<forall>s\<in>set (files ! f). \<forall>t\<in>set s. dimension t = d)"
  let ?D = "dimension ` (\<Union>s\<in>set (files ! f). set s)"
  from h obtain s t where "s \<in> set (files ! f)" "t \<in> set s" by (metis last_in_set)
  then have "dimension t \<in> ?D" by blast
  moreover have "dimension t = d" using h \<open>s \<in> set (files ! f)\<close> \<open>t \<in> set s\<close> by blast
  moreover have "?D \<subseteq> {d}" using h by auto
  ultimately have "?D = {d}" by auto
  moreover have "d \<le> 3" using h \<open>s \<in> set (files ! f)\<close> \<open>t \<in> set s\<close> dimension_range[of t] by auto
  ultimately show gd: "global_dims (files ! f) = (d, d)"
    using h by (simp add: global_dims_Min_Max[OF assms(2)])
  show "check_dims 0 ?dims \<noteq> Inl (VariousDimension f)"
  proof
    assume "check_dims 0 ?dims = Inl (VariousDimension f)"
    from check_dims_Inl[OF this] have "fst (?dims ! f) \<noteq> snd (?dims ! f)" by auto
    with gd assms(1) show False by simp
  qed
qed

text \<open>An instance of C5: file 0 holds triangles and quads only, file 1 mixes a triangle
  and a tetrahedron.\<close>

theorem dimension_consensus_witness:
  "check_dims 0 (map global_dims [[[5, 9], [9]], [[5], [10]]]) = Inl (VariousDimension 1)
   \<and> global_dims ([[[5, 9], [9]], [[5], [10]]] ! 0) = (2, 2)
   \<and> check_dims 0 (map global_dims [[[5, 9], [9]], [[5], [10]]]) \<noteq> Inl (VariousDimension 0)"
  using dimension_consensus [of 1 "[[[5, 9], [9]], [[5], [10]]]" 2]
    dimension_consensus [of 0 "[[[5, 9], [9]], [[5], [10]]]" 2]
  by (simp add: global_dims_def dim_scan_def dim_step_def dimension_def)

section \<open>Properties of the classification warning\<close>

text \<open>The warning is logged for a file exactly when its entry of \<^verbatim>\<open>mixedparser.invalid\<close>
  differs from the number of workers, and the loop never ends the parse. What the
  entries hold is decided by \<^verbatim>\<open>MixedElementsParser\<close>, which is not part of the file.\<close>

lemma warnings_iff:
  "\<exists>ws. warnings invalid mpi_size = Inr ws
     \<and> (\<forall>i<length invalid. (i \<in> set ws) = (invalid ! i \<noteq> mpi_size))
     \<and> (\<forall>i\<in>set ws. i < length invalid)"
  by (auto simp: warnings_def)

text \<open>An instance with two workers and three files.\<close>

lemma warnings_iff_instance:
  "warnings [2, 0, 1] 2 = Inr [1, 2]"
  using warnings_iff [of "[2, 0, 1]" 2]
  by (simp add: warnings_def upt_rec)

section \<open>Properties of the binary decoding\<close>

lemma swap_rev: "swap t = rev t"
  by (rule nth_equalityI) (simp_all add: swap_def rev_nth)

lemma length_concat_uniform:
  "\<forall>v\<in>set vs. length v = sz \<Longrightarrow> length (concat vs) = length vs * sz"
  by (induction vs) auto

lemma elements_concat:
  assumes "\<forall>v\<in>set vs. length v = sz"
  shows "elements sz (length vs) (concat vs @ rest) = vs"
proof (rule nth_equalityI)
  show "length (elements sz (length vs) (concat vs @ rest)) = length vs"
    by (simp add: elements_def)
next
  fix i assume "i < length (elements sz (length vs) (concat vs @ rest))"
  then have i: "i < length vs" by (simp add: elements_def)
  have split: "vs = take i vs @ vs ! i # drop (Suc i) vs" using i by (simp add: id_take_nth_drop)
  have "\<forall>v\<in>set (take i vs). length v = sz" using assms by (meson in_set_takeD)
  then have l1: "length (concat (take i vs)) = i * sz"
    using length_concat_uniform[of "take i vs" sz] i by simp
  have l2: "length (vs ! i) = sz" using assms i by simp
  have "concat vs @ rest = concat (take i vs) @ (vs ! i @ concat (drop (Suc i) vs) @ rest)"
    by (subst split) simp
  then have "drop (i * sz) (concat vs @ rest) = vs ! i @ concat (drop (Suc i) vs) @ rest"
    using l1 by simp
  then have "take sz (drop (i * sz) (concat vs @ rest)) = vs ! i" using l2 by simp
  then show "elements sz (length vs) (concat vs @ rest) ! i = vs ! i"
    using i by (simp add: elements_def)
qed

lemma elements_take:
  "n * sz \<le> k \<Longrightarrow> elements sz n (take k buf) = elements sz n buf"
proof -
  assume k: "n * sz \<le> k"
  have "\<And>i. i < n \<Longrightarrow> take sz (drop (i * sz) (take k buf)) = take sz (drop (i * sz) buf)"
  proof -
    fix i assume "i < n"
    then have "Suc i * sz \<le> n * sz" by (intro mult_le_mono1) simp
    then have "i * sz + sz \<le> k" using k by simp
    then show "take sz (drop (i * sz) (take k buf)) = take sz (drop (i * sz) buf)"
      by (simp add: drop_take min_def)
  qed
  then show ?thesis by (simp add: elements_def)
qed

lemma round_aligned: "(current - start) mod chunk = 0 \<Longrightarrow> round current start chunk = current"
  by (simp add: round_def)

text \<open>C8: a payload of \<open>N\<close> triples of 4-byte values in big-endian byte order, lying inside
  the worker's window, is decoded to exactly \<open>3 * N\<close> output values, each the conversion of
  the original value; and the byte reversal of \<^verbatim>\<open>swap\<close> is an involution. Values are
  object representations; \<open>convert\<close> is the conversion of \<^verbatim>\<open>float\<close> to \<^verbatim>\<open>double\<close>.\<close>

theorem binary_roundtrip:
  assumes r: "r + 1 < length (distribution pack)"
    and lo: "distribution pack ! r \<le> begin_byte kw"
    and hi: "end_byte kw \<le> distribution pack ! (r + 1)"
    and vs: "\<forall>v\<in>set vs. length v = 4" "length vs = 3 * N"
    and fit: "unat (begin_byte kw) + 12 * N < 2 ^ 64"
    and ke: "end_byte kw = begin_byte kw + of_nat (12 * N)"
    and buf: "bytes pack = pre @ concat (map big_endian vs) @ post"
      "length pre = unat (begin_byte kw - distribution pack ! r)"
  shows "read 4 convert r pack kw [] 12 = Some (map convert vs)
    \<and> length (map convert vs) = 3 * N
    \<and> (\<forall>t :: byte list. swap (swap t) = t)"
proof -
  let ?kb = "begin_byte kw" and ?ke = "end_byte kw"
  have n64: "12 * N < 2 ^ 64" using fit by simp
  define len :: size_t where "len = of_nat (12 * N)"
  have "unat len = (12 * N) mod 2 ^ LENGTH(64)" unfolding len_def by (rule unat_of_nat)
  also have "\<dots> = 12 * N" using n64 by simp
  finally have un: "unat len = 12 * N" .
  have ke: "?ke = ?kb + len" using ke by (simp only: len_def)
  have d: "?ke - ?kb = len" using ke by simp
  have du: "unat (?ke - ?kb) = 12 * N" using d un by simp
  have m: "(?ke - ?kb) mod 12 = 0"
  proof -
    have "unat ((?ke - ?kb) mod 12) = 0" by (simp add: unat_mod du)
    then show ?thesis by (simp add: unat_eq_zero)
  qed
  have kbke: "?kb \<le> ?ke"
    using fit un ke by (simp add: word_le_nat_alt unat_add_lem[THEN iffD1])
  have rr: "read_range r pack kw 12 = (?kb, ?ke)"
    using lo hi m by (simp add: read_range_def max_def min_def round_aligned)
  show ?thesis
  proof (cases "N = 0")
    case True
    then have "?ke = ?kb" using ke by (simp add: len_def)
    then show ?thesis using True vs r rr by (simp add: read_def swap_rev)
  next
    case False
    then have lt: "?kb < ?ke" using du kbke by (metis less_le mult_eq_0_iff unat_0 right_minus_eq zero_neq_numeral)
    have lc: "length (concat (map big_endian vs)) = 12 * N"
      using length_concat_uniform[of "map big_endian vs" 4] vs by (simp add: big_endian_def)
    have cp: "memcpy (bytes pack) (unat (?kb - distribution pack ! r)) (12 * N)
        = Some (concat (map big_endian vs))"
      using buf lc by (simp add: memcpy_def)
    have el: "elements 4 (3 * N) (concat (map big_endian vs)) = map big_endian vs"
      using elements_concat[of "map big_endian vs" 4 "[]"] vs by (simp add: big_endian_def)
    have "(12 * N) div 4 = 3 * N" by simp
    then have "read 4 convert r pack kw [] 12
        = Some (map (\<lambda>t. convert (swap t)) (map big_endian vs))"
      using r rr lt du cp el by (simp add: read_def)
    then show ?thesis using vs by (simp add: swap_rev big_endian_def comp_def)
  qed
qed

text \<open>An instance of C8: one triple at bytes 8 to 20 of a window of 40 bytes.\<close>

theorem binary_roundtrip_witness:
  "read 4 id 0
     \<lparr>distribution = [0, 40],
      bytes = replicate 8 0 @ [4, 3, 2, 1, 8, 7, 6, 5, 12, 11, 10, 9] @ replicate 20 0\<rparr>
     \<lparr>fileindex = 0, rank = 0, offset = 0, begin_byte = 8, end_byte = 20\<rparr> [] 12
   = Some [[1, 2, 3, 4], [5, 6, 7, 8], [9, 10, 11, 12]]"
  using binary_roundtrip [of 0
      "\<lparr>distribution = [0, 40],
        bytes = replicate 8 0 @ [4, 3, 2, 1, 8, 7, 6, 5, 12, 11, 10, 9] @ replicate 20 0\<rparr>"
      "\<lparr>fileindex = 0, rank = 0, offset = 0, begin_byte = 8, end_byte = 20\<rparr>"
      "[[1, 2, 3, 4], [5, 6, 7, 8], [9, 10, 11, 12]]" 1 "replicate 8 0" "replicate 20 0" id]
  by (simp add: big_endian_def)

text \<open>C7, at a window that ends one byte before the record begins: worker 0 owns bytes
  0 to 99, the record of 3 \<^verbatim>\<open>float\<close> triples spans bytes 100 to 136. The intersection is
  empty (its end 99 lies before its begin 100), the subtraction \<open>99 - 100\<close> wraps around,
  the end is moved to 108, and bytes 100 to 108 are decoded.\<close>

theorem read_range_before_record:
  "read_range 0 \<lparr>distribution = [0, 99, 300], bytes = map of_nat [0..<120]\<rparr>
       \<lparr>fileindex = 0, rank = 0, offset = 85, begin_byte = 100, end_byte = 136\<rparr> 12
     = (100, 108)
   \<and> max (100 :: size_t) 0 = 100 \<and> min (136 :: size_t) 99 = 99"
  by (simp add: read_range_def round_def)

text \<open>C10, at the same input: the decoded points array has two values, which is not a
  whole number of triples.\<close>

theorem read_before_record:
  "read 4 id 0 \<lparr>distribution = [0, 99, 300], bytes = map of_nat [0..<120]\<rparr>
       \<lparr>fileindex = 0, rank = 0, offset = 85, begin_byte = 100, end_byte = 136\<rparr> [] 12
     = Some [[103, 102, 101, 100], [107, 106, 105, 104]]"
  by (simp add: read_def read_range_def round_def memcpy_def elements_def swap_def upt_rec)

section \<open>Properties of the end resolution\<close>

lemma file_offsets_Cons:
  "file_offsets f (k # ks) = (if fileindex k = f then offset k # file_offsets f ks else file_offsets f ks)"
  by (simp add: file_offsets_def)

lemma file_offsets_Nil: "file_offsets f [] = []"
  by (simp add: file_offsets_def)

lemma addoffset_Some:
  "\<forall>k\<in>set ks. fileindex k < length offs \<Longrightarrow>
     addoffset offs ks = Some (map (\<lambda>f. offs ! f @ file_offsets f ks) [0..<length offs])"
proof (induction ks arbitrary: offs)
  case Nil
  show ?case by (simp add: file_offsets_Nil map_nth)
next
  case (Cons k ks)
  let ?offs' = "offs[fileindex k := offs ! fileindex k @ [offset k]]"
  have fi: "fileindex k < length offs" using Cons.prems by simp
  have "\<forall>k'\<in>set ks. fileindex k' < length ?offs'" using Cons.prems by simp
  from Cons.IH[OF this]
  have "addoffset ?offs' ks = Some (map (\<lambda>f. ?offs' ! f @ file_offsets f ks) [0..<length offs])"
    by simp
  moreover have "map (\<lambda>f. ?offs' ! f @ file_offsets f ks) [0..<length offs]
      = map (\<lambda>f. offs ! f @ file_offsets f (k # ks)) [0..<length offs]"
    using fi by (auto simp: file_offsets_Cons nth_list_update)
  ultimately show ?case using fi by simp
qed

lemma lower_bound_sorted:
  assumes "sorted xs" "x0 \<in> set xs" "v \<le> x0"
  shows "lower_bound xs v < length xs
    \<and> v \<le> xs ! lower_bound xs v
    \<and> (\<forall>x\<in>set xs. v \<le> x \<longrightarrow> xs ! lower_bound xs v \<le> x)"
proof -
  let ?p = "takeWhile (\<lambda>x. x < v) xs" and ?d = "dropWhile (\<lambda>x. x < v) xs"
  have xs: "xs = ?p @ ?d" by simp
  have "\<not> x0 < v" using assms(3) by simp
  then have "?p \<noteq> xs" using assms(2) by (metis set_takeWhileD)
  then have dne: "?d \<noteq> []" using xs by (metis append_Nil2)
  have "length xs = length ?p + length ?d" by (metis length_append takeWhile_dropWhile_id)
  then have lt: "lower_bound xs v < length xs"
    unfolding lower_bound_def using dne by simp
  have "(?p @ ?d) ! length ?p = hd ?d" using dne by (cases ?d) simp_all
  then have hd: "xs ! lower_bound xs v = hd ?d"
    unfolding lower_bound_def by simp
  have ge: "v \<le> hd ?d" using hd_dropWhile[OF dne] by simp
  have least: "\<forall>x\<in>set xs. v \<le> x \<longrightarrow> hd ?d \<le> x"
  proof (intro ballI impI)
    fix x assume x: "x \<in> set xs" "v \<le> x"
    have "x \<notin> set ?p" using x(2) by (metis leD set_takeWhileD)
    then have "x \<in> set ?d" using x(1) xs by (metis Un_iff set_append)
    moreover have "sorted ?d" using assms(1) by (simp add: sorted_dropWhile)
    ultimately show "hd ?d \<le> x" using dne by (cases ?d) auto
  qed
  show ?thesis using lt hd ge least by simp
qed

lemma setend_Some:
  "\<forall>k\<in>set ks. fileindex k < length offs
      \<and> lower_bound (offs ! fileindex k) (begin_byte k) < length (offs ! fileindex k) \<Longrightarrow>
   setend offs ks = Some (map (\<lambda>k. k\<lparr>end_byte :=
       offs ! fileindex k ! lower_bound (offs ! fileindex k) (begin_byte k)\<rparr>) ks)"
  by (induction ks) simp_all


lemma addoffset_map:
  assumes "\<forall>k\<in>set ks. fileindex k < n"
  shows "addoffset (map g [0..<n]) ks = Some (map (\<lambda>f. g f @ file_offsets f ks) [0..<n])"
proof -
  have "addoffset (map g [0..<n]) ks
      = Some (map (\<lambda>f. map g [0..<n] ! f @ file_offsets f ks) [0..<length (map g [0..<n])])"
    using assms by (intro addoffset_Some) simp
  also have "map (\<lambda>f. map g [0..<n] ! f @ file_offsets f ks) [0..<length (map g [0..<n])]
      = map (\<lambda>f. g f @ file_offsets f ks) [0..<n]"
    by (rule nth_equalityI) simp_all
  finally show ?thesis .
qed

lemma setend_resolved:
  assumes offs: "length offs = n" "\<forall>f<n. sorted (offs ! f) \<and> set (offs ! f) = B f"
    and ks: "\<forall>k\<in>set ks. fileindex k < n \<and> (\<exists>x\<in>B (fileindex k). begin_byte k \<le> x)"
  shows "\<exists>ks'. setend offs ks = Some ks' \<and> ends_resolved B ks ks'"
proof -
  let ?e = "\<lambda>k. offs ! fileindex k ! lower_bound (offs ! fileindex k) (begin_byte k)"
  have lb: "lower_bound (offs ! fileindex k) (begin_byte k) < length (offs ! fileindex k)
      \<and> begin_byte k \<le> ?e k
      \<and> (\<forall>x\<in>B (fileindex k). begin_byte k \<le> x \<longrightarrow> ?e k \<le> x)" if "k \<in> set ks" for k
  proof -
    from ks that obtain x where f: "fileindex k < n" and x: "x \<in> B (fileindex k)" "begin_byte k \<le> x"
      by blast
    have "sorted (offs ! fileindex k)" "x \<in> set (offs ! fileindex k)" using offs f x by simp_all
    from lower_bound_sorted[OF this x(2)] show ?thesis using offs f by simp
  qed
  have "setend offs ks = Some (map (\<lambda>k. k\<lparr>end_byte := ?e k\<rparr>) ks)"
    using ks lb offs(1) by (intro setend_Some) auto
  moreover have "ends_resolved B ks (map (\<lambda>k. k\<lparr>end_byte := ?e k\<rparr>) ks)"
    unfolding ends_resolved_def
  proof (intro conjI allI impI)
    show "length (map (\<lambda>k. k\<lparr>end_byte := ?e k\<rparr>) ks) = length ks" by simp
  next
    fix i assume i: "i < length ks"
    then have mem: "ks ! i \<in> set ks" by simp
    have f: "fileindex (ks ! i) < n" using ks mem by blast
    show "map (\<lambda>k. k\<lparr>end_byte := ?e k\<rparr>) ks ! i
        = (ks ! i)\<lparr>end_byte := end_byte (map (\<lambda>k. k\<lparr>end_byte := ?e k\<rparr>) ks ! i)\<rparr>"
      using i by simp
    have "?e (ks ! i) \<in> set (offs ! fileindex (ks ! i))" using lb[OF mem] by simp
    then show "end_byte (map (\<lambda>k. k\<lparr>end_byte := ?e k\<rparr>) ks ! i) \<in> B (fileindex (ks ! i))"
      using i offs f by simp
    show "begin_byte (ks ! i) \<le> end_byte (map (\<lambda>k. k\<lparr>end_byte := ?e k\<rparr>) ks ! i)"
      using i lb[OF mem] by simp
    show "\<forall>b\<in>B (fileindex (ks ! i)).
        begin_byte (ks ! i) \<le> b \<longrightarrow> end_byte (map (\<lambda>k. k\<lparr>end_byte := ?e k\<rparr>) ks ! i) \<le> b"
      using i lb[OF mem] by simp
  qed
  ultimately show ?thesis by blast
qed

lemma keywords_ok_setend:
  assumes "keywords_ok file_ends n ks" "\<forall>f<n. file_ends ! f \<in> B f"
  shows "\<forall>k\<in>set ks. fileindex k < n \<and> (\<exists>x\<in>B (fileindex k). begin_byte k \<le> x)"
  using assms unfolding keywords_ok_def by blast

text \<open>C1, as stated, fails: in a file with a points record (keyword at 100, payload from
  115) and a cells record (keyword at 164, payload from 175) the end of the points
  record becomes 164, the offset of the next keyword, and not 175, the smallest
  \<^verbatim>\<open>begin\<close> above 115; the payload ranges from 115 to 164 and from 175 to 216 leave the
  bytes from 164 to 175 out.\<close>

theorem scan_ends_counterexample:
  "scan_ends [216] 1
      [\<lparr>fileindex = 0, rank = 0, offset = 100, begin_byte = 115, end_byte = 0,
         nn = 4, datatype_p = FLOAT\<rparr>]
      [\<lparr>fileindex = 0, rank = 0, offset = 164, begin_byte = 175, end_byte = 0,
         ne = 2, size_c = 10\<rparr>] [] [] []
    = Some
       ([\<lparr>fileindex = 0, rank = 0, offset = 100, begin_byte = 115, end_byte = 164,
           nn = 4, datatype_p = FLOAT\<rparr>],
        [\<lparr>fileindex = 0, rank = 0, offset = 164, begin_byte = 175, end_byte = 216,
           ne = 2, size_c = 10\<rparr>], [], [], [])
   \<and> spec_end [115, 175] 216 115 = Some 175"
  by (simp add: scan_ends_def close_offsets_def lower_bound_def spec_end_def)

text \<open>When every record names a file of the pack and begins at or before the end of its
  file, the resolution succeeds and every end is the least boundary of the record's file
  that is not less than the record's \<^verbatim>\<open>begin\<close>.\<close>

lemma scan_ends_resolved:
  assumes n: "pack_size \<le> length file_ends"
    and ok: "keywords_ok file_ends pack_size points" "keywords_ok file_ends pack_size cells"
      "keywords_ok file_ends pack_size cellTypes" "keywords_ok file_ends pack_size pointData"
      "keywords_ok file_ends pack_size cellData"
  shows "\<exists>points' cells' cellTypes' pointData' cellData'.
     scan_ends file_ends pack_size points cells cellTypes pointData cellData
       = Some (points', cells', cellTypes', pointData', cellData')
     \<and> ends_resolved (boundaries file_ends points cells cellTypes pointData cellData) points points'
     \<and> ends_resolved (boundaries file_ends points cells cellTypes pointData cellData) cells cells'
     \<and> ends_resolved (boundaries file_ends points cells cellTypes pointData cellData) cellTypes cellTypes'
     \<and> ends_resolved (boundaries file_ends points cells cellTypes pointData cellData) pointData pointData'
     \<and> ends_resolved (boundaries file_ends points cells cellTypes pointData cellData) cellData cellData'"
proof -
  let ?B = "boundaries file_ends points cells cellTypes pointData cellData"
  let ?g5 = "\<lambda>f. ((((([] @ file_offsets f points) @ file_offsets f cells) @ file_offsets f cellTypes)
      @ file_offsets f pointData) @ file_offsets f cellData)"
  let ?offs = "map (\<lambda>i. sort (?g5 i @ [file_ends ! i])) [0..<pack_size]"
  have fi: "\<forall>k\<in>set points. fileindex k < pack_size" "\<forall>k\<in>set cells. fileindex k < pack_size"
    "\<forall>k\<in>set cellTypes. fileindex k < pack_size" "\<forall>k\<in>set pointData. fileindex k < pack_size"
    "\<forall>k\<in>set cellData. fileindex k < pack_size"
    using ok unfolding keywords_ok_def by blast+
  have r: "replicate pack_size [] = map (\<lambda>f. [] :: size_t list) [0..<pack_size]"
    by (rule nth_equalityI) simp_all
  have a1: "addoffset (replicate pack_size []) points
      = Some (map (\<lambda>f. [] @ file_offsets f points) [0..<pack_size])"
    unfolding r using fi(1) by (rule addoffset_map)
  note a2 = addoffset_map[OF fi(2), of "\<lambda>f. [] @ file_offsets f points"]
  note a3 = addoffset_map[OF fi(3), of "\<lambda>f. ([] @ file_offsets f points) @ file_offsets f cells"]
  note a4 = addoffset_map[OF fi(4),
      of "\<lambda>f. (([] @ file_offsets f points) @ file_offsets f cells) @ file_offsets f cellTypes"]
  note a5 = addoffset_map[OF fi(5),
      of "\<lambda>f. ((([] @ file_offsets f points) @ file_offsets f cells) @ file_offsets f cellTypes)
            @ file_offsets f pointData"]
  have cl: "close_offsets file_ends (map ?g5 [0..<pack_size]) = Some ?offs"
    using n unfolding close_offsets_def by (simp cong: map_cong)
  have len: "length ?offs = pack_size" by simp
  have props: "\<forall>f<pack_size. sorted (?offs ! f) \<and> set (?offs ! f) = ?B f"
    by (auto simp: boundaries_def)
  have fe: "\<forall>f<pack_size. file_ends ! f \<in> ?B f" by (simp add: boundaries_def)
  from setend_resolved[OF len props keywords_ok_setend[OF ok(1) fe]]
  obtain points' where p: "setend ?offs points = Some points'" "ends_resolved ?B points points'" by blast
  from setend_resolved[OF len props keywords_ok_setend[OF ok(2) fe]]
  obtain cells' where c: "setend ?offs cells = Some cells'" "ends_resolved ?B cells cells'" by blast
  from setend_resolved[OF len props keywords_ok_setend[OF ok(3) fe]]
  obtain cellTypes' where t: "setend ?offs cellTypes = Some cellTypes'"
    "ends_resolved ?B cellTypes cellTypes'" by blast
  from setend_resolved[OF len props keywords_ok_setend[OF ok(4) fe]]
  obtain pointData' where pd: "setend ?offs pointData = Some pointData'"
    "ends_resolved ?B pointData pointData'" by blast
  from setend_resolved[OF len props keywords_ok_setend[OF ok(5) fe]]
  obtain cellData' where cd: "setend ?offs cellData = Some cellData'"
    "ends_resolved ?B cellData cellData'" by blast
  have "scan_ends file_ends pack_size points cells cellTypes pointData cellData
      = Some (points', cells', cellTypes', pointData', cellData')"
    unfolding scan_ends_def a1 bind.simps a2 a3 a4 a5 cl
    by (simp only: p c t pd cd bind.simps)
  with p c t pd cd show ?thesis by blast
qed

lemma truncate_fields:
  "fileindex (Keyword.truncate k) = fileindex k" "offset (Keyword.truncate k) = offset k"
  "begin_byte (Keyword.truncate k) = begin_byte k" "end_byte (Keyword.truncate k) = end_byte k"
  by (simp_all add: Keyword.truncate_def)

lemma offset_in_file_offsets:
  "k \<in> set ks \<Longrightarrow> offset k \<in> set (file_offsets (fileindex k) ks)"
  by (auto simp: file_offsets_def)

lemma resolved_member:
  assumes "ends_resolved B ks ks'" "t' \<in> set (map Keyword.truncate ks')"
  shows "\<exists>t\<in>set (map Keyword.truncate ks). resolved_from B t t'"
proof -
  from assms(2) obtain k' where k': "k' \<in> set ks'" "t' = Keyword.truncate k'" by auto
  then obtain i where i: "i < length ks'" "ks' ! i = k'" by (auto simp: in_set_conv_nth)
  have len: "length ks' = length ks" using assms(1) by (simp add: ends_resolved_def)
  then have il: "i < length ks" using i by simp
  have r: "ks' ! i = (ks ! i)\<lparr>end_byte := end_byte (ks' ! i)\<rparr>"
    "begin_byte (ks ! i) \<le> end_byte (ks' ! i)"
    "\<forall>b\<in>B (fileindex (ks ! i)). begin_byte (ks ! i) \<le> b \<longrightarrow> end_byte (ks' ! i) \<le> b"
    using assms(1) il unfolding ends_resolved_def by blast+
  have f: "fileindex (ks' ! i) = fileindex (ks ! i)" "offset (ks' ! i) = offset (ks ! i)"
    "begin_byte (ks' ! i) = begin_byte (ks ! i)"
    by (subst r(1), simp)+
  have "resolved_from B (Keyword.truncate (ks ! i)) t'"
    unfolding resolved_from_def k'(2) i(2)[symmetric] truncate_fields f
    using r(2,3) by simp
  moreover have "Keyword.truncate (ks ! i) \<in> set (map Keyword.truncate ks)" using il by simp
  ultimately show ?thesis by blast
qed

lemma ordered_from_resolved:
  assumes Q: "\<forall>t'\<in>set all'. \<exists>t\<in>set all. resolved_from B t t'"
    and off: "\<forall>t\<in>set all. offset t \<in> B (fileindex t)"
    and hc: "headers_clear all"
  shows "ranges_ordered all'"
  unfolding ranges_ordered_def
proof (intro ballI impI)
  fix k1 k2 assume k: "k1 \<in> set all'" "k2 \<in> set all'"
    and h: "fileindex k1 = fileindex k2 \<and> offset k1 < offset k2"
  from Q k(1) obtain t1 where t1: "t1 \<in> set all" "resolved_from B t1 k1" by blast
  from Q k(2) obtain t2 where t2: "t2 \<in> set all" "resolved_from B t2 k2" by blast
  have f1: "fileindex k1 = fileindex t1" "offset k1 = offset t1" "begin_byte k1 = begin_byte t1"
    "begin_byte t1 \<le> end_byte k1"
    "\<forall>b\<in>B (fileindex t1). begin_byte t1 \<le> b \<longrightarrow> end_byte k1 \<le> b"
    using t1(2) unfolding resolved_from_def by blast+
  have f2: "fileindex k2 = fileindex t2" "offset k2 = offset t2" "begin_byte k2 = begin_byte t2"
    using t2(2) unfolding resolved_from_def by blast+
  have same: "fileindex t2 = fileindex t1" using h f1(1) f2(1) by simp
  have lt: "offset t1 < offset t2" using h f1(2) f2(2) by simp
  have b1: "begin_byte t1 \<le> offset t2"
    using hc t1(1) t2(1) same lt unfolding headers_clear_def by blast
  have b2: "offset t2 \<le> begin_byte t2" using hc t2(1) unfolding headers_clear_def by blast
  have "offset t2 \<in> B (fileindex t1)" using off t2(1) same by metis
  then have e: "end_byte k1 \<le> offset t2" using f1(5) b1 by blast
  show "begin_byte k1 \<le> end_byte k1 \<and> end_byte k1 \<le> offset k2 \<and> offset k2 \<le> begin_byte k2"
    unfolding f1(3) f2(2) f2(3) using f1(4) e b2 by simp
qed

lemma all_keywords_cases:
  assumes "t \<in> set (all_keywords points cells cellTypes pointData cellData)"
  shows "t \<in> set (map Keyword.truncate points) \<or> t \<in> set (map Keyword.truncate cells)
    \<or> t \<in> set (map Keyword.truncate cellTypes) \<or> t \<in> set (map Keyword.truncate pointData)
    \<or> t \<in> set (map Keyword.truncate cellData)"
  using assms unfolding all_keywords_def by auto

lemma all_keywords_mem:
  "t \<in> set (map Keyword.truncate points) \<Longrightarrow> t \<in> set (all_keywords points cells cellTypes pointData cellData)"
  "t \<in> set (map Keyword.truncate cells) \<Longrightarrow> t \<in> set (all_keywords points cells cellTypes pointData cellData)"
  "t \<in> set (map Keyword.truncate cellTypes) \<Longrightarrow> t \<in> set (all_keywords points cells cellTypes pointData cellData)"
  "t \<in> set (map Keyword.truncate pointData) \<Longrightarrow> t \<in> set (all_keywords points cells cellTypes pointData cellData)"
  "t \<in> set (map Keyword.truncate cellData) \<Longrightarrow> t \<in> set (all_keywords points cells cellTypes pointData cellData)"
  unfolding all_keywords_def by auto

lemma truncated_offset:
  assumes "t \<in> set (map Keyword.truncate ks)"
  shows "offset t \<in> set (file_offsets (fileindex t) ks)"
proof -
  from assms obtain k where "k \<in> set ks" "t = Keyword.truncate k" by auto
  then show ?thesis using offset_in_file_offsets[of k ks] by (simp add: truncate_fields)
qed

lemma all_keywords_offsets:
  assumes "t \<in> set (all_keywords points cells cellTypes pointData cellData)"
  shows "offset t \<in> boundaries file_ends points cells cellTypes pointData cellData (fileindex t)"
  using all_keywords_cases[OF assms]
proof (elim disjE)
  assume "t \<in> set (map Keyword.truncate points)"
  from truncated_offset[OF this] show ?thesis unfolding boundaries_def by simp
next
  assume "t \<in> set (map Keyword.truncate cells)"
  from truncated_offset[OF this] show ?thesis unfolding boundaries_def by simp
next
  assume "t \<in> set (map Keyword.truncate cellTypes)"
  from truncated_offset[OF this] show ?thesis unfolding boundaries_def by simp
next
  assume "t \<in> set (map Keyword.truncate pointData)"
  from truncated_offset[OF this] show ?thesis unfolding boundaries_def by simp
next
  assume "t \<in> set (map Keyword.truncate cellData)"
  from truncated_offset[OF this] show ?thesis unfolding boundaries_def by simp
qed

text \<open>C1, amended: when every record names a file of the pack and begins at or before the
  end of its file, the resolution succeeds, leaves all other fields as they are, and
  assigns to each record's end the smallest boundary, among the keyword offsets of all
  records of its file and the file's final byte offset, that is not less than the
  record's \<^verbatim>\<open>begin\<close>. If moreover every record begins at or after its own keyword and at
  or before every later keyword of its file, then of two records of a file the one with
  the smaller keyword offset has a payload range that ends at or before the keyword of
  the other, whose payload begins at or after that keyword: the ranges are disjoint and
  in the order of the offsets, with the keyword headers between them.\<close>

theorem scan_ends_least_boundary:
  assumes n: "pack_size \<le> length file_ends"
    and ok: "keywords_ok file_ends pack_size points" "keywords_ok file_ends pack_size cells"
      "keywords_ok file_ends pack_size cellTypes" "keywords_ok file_ends pack_size pointData"
      "keywords_ok file_ends pack_size cellData"
  shows "\<exists>points' cells' cellTypes' pointData' cellData'.
     scan_ends file_ends pack_size points cells cellTypes pointData cellData
       = Some (points', cells', cellTypes', pointData', cellData')
     \<and> ends_resolved (boundaries file_ends points cells cellTypes pointData cellData) points points'
     \<and> ends_resolved (boundaries file_ends points cells cellTypes pointData cellData) cells cells'
     \<and> ends_resolved (boundaries file_ends points cells cellTypes pointData cellData) cellTypes cellTypes'
     \<and> ends_resolved (boundaries file_ends points cells cellTypes pointData cellData) pointData pointData'
     \<and> ends_resolved (boundaries file_ends points cells cellTypes pointData cellData) cellData cellData'
     \<and> (headers_clear (all_keywords points cells cellTypes pointData cellData) \<longrightarrow>
          ranges_ordered (all_keywords points' cells' cellTypes' pointData' cellData'))"
proof -
  let ?B = "boundaries file_ends points cells cellTypes pointData cellData"
  from scan_ends_resolved[OF n ok]
  obtain points' cells' cellTypes' pointData' cellData' where r:
    "scan_ends file_ends pack_size points cells cellTypes pointData cellData
       = Some (points', cells', cellTypes', pointData', cellData')"
    "ends_resolved ?B points points'" "ends_resolved ?B cells cells'"
    "ends_resolved ?B cellTypes cellTypes'" "ends_resolved ?B pointData pointData'"
    "ends_resolved ?B cellData cellData'"
    by (elim exE conjE)
  have Q: "\<forall>t'\<in>set (all_keywords points' cells' cellTypes' pointData' cellData').
      \<exists>t\<in>set (all_keywords points cells cellTypes pointData cellData). resolved_from ?B t t'"
  proof
    fix t' assume "t' \<in> set (all_keywords points' cells' cellTypes' pointData' cellData')"
    from all_keywords_cases[OF this]
    show "\<exists>t\<in>set (all_keywords points cells cellTypes pointData cellData). resolved_from ?B t t'"
    proof (elim disjE)
      assume "t' \<in> set (map Keyword.truncate points')"
      from resolved_member[OF r(2) this] show ?thesis using all_keywords_mem(1) by blast
    next
      assume "t' \<in> set (map Keyword.truncate cells')"
      from resolved_member[OF r(3) this] show ?thesis using all_keywords_mem(2) by blast
    next
      assume "t' \<in> set (map Keyword.truncate cellTypes')"
      from resolved_member[OF r(4) this] show ?thesis using all_keywords_mem(3) by blast
    next
      assume "t' \<in> set (map Keyword.truncate pointData')"
      from resolved_member[OF r(5) this] show ?thesis using all_keywords_mem(4) by blast
    next
      assume "t' \<in> set (map Keyword.truncate cellData')"
      from resolved_member[OF r(6) this] show ?thesis using all_keywords_mem(5) by blast
    qed
  qed
  have off: "\<forall>t\<in>set (all_keywords points cells cellTypes pointData cellData).
      offset t \<in> ?B (fileindex t)"
    using all_keywords_offsets by blast
  have o: "headers_clear (all_keywords points cells cellTypes pointData cellData) \<longrightarrow>
      ranges_ordered (all_keywords points' cells' cellTypes' pointData' cellData')"
    using ordered_from_resolved[OF Q off] by blast
  show ?thesis
    apply (rule exI[of _ points'], rule exI[of _ cells'], rule exI[of _ cellTypes'])
    apply (rule exI[of _ pointData'], rule exI[of _ cellData'])
    apply (intro conjI r o)
    done
qed

text \<open>An instance of C1 on the file of the counterexample.\<close>

theorem scan_ends_least_boundary_witness:
  "scan_ends [216] 1
      [\<lparr>fileindex = 0, rank = 0, offset = 100, begin_byte = 115, end_byte = 0,
         nn = 4, datatype_p = FLOAT\<rparr>]
      [\<lparr>fileindex = 0, rank = 0, offset = 164, begin_byte = 175, end_byte = 0,
         ne = 2, size_c = 10\<rparr>] [] [] []
    = Some
       ([\<lparr>fileindex = 0, rank = 0, offset = 100, begin_byte = 115, end_byte = 164,
           nn = 4, datatype_p = FLOAT\<rparr>],
        [\<lparr>fileindex = 0, rank = 0, offset = 164, begin_byte = 175, end_byte = 216,
           ne = 2, size_c = 10\<rparr>], [], [], [])
   \<and> boundaries [216]
      [\<lparr>fileindex = 0, rank = 0, offset = 100, begin_byte = 115, end_byte = 0,
         nn = 4, datatype_p = FLOAT\<rparr>]
      [\<lparr>fileindex = 0, rank = 0, offset = 164, begin_byte = 175, end_byte = 0,
         ne = 2, size_c = 10\<rparr>] [] [] [] 0 = {100, 164, 216}
   \<and> headers_clear (all_keywords
      [\<lparr>fileindex = 0, rank = 0, offset = 100, begin_byte = 115, end_byte = 0,
         nn = 4, datatype_p = FLOAT\<rparr>]
      [\<lparr>fileindex = 0, rank = 0, offset = 164, begin_byte = 175, end_byte = 0,
         ne = 2, size_c = 10\<rparr>] [] [] [])
   \<and> ranges_ordered (all_keywords
      [\<lparr>fileindex = 0, rank = 0, offset = 100, begin_byte = 115, end_byte = 164,
         nn = 4, datatype_p = FLOAT\<rparr>]
      [\<lparr>fileindex = 0, rank = 0, offset = 164, begin_byte = 175, end_byte = 216,
         ne = 2, size_c = 10\<rparr>] [] [] [])"
  using scan_ends_least_boundary [of 1 "[216]"
      "[\<lparr>fileindex = 0, rank = 0, offset = 100, begin_byte = 115, end_byte = 0,
         nn = 4, datatype_p = FLOAT\<rparr>]"
      "[\<lparr>fileindex = 0, rank = 0, offset = 164, begin_byte = 175, end_byte = 0,
         ne = 2, size_c = 10\<rparr>]" "[]" "[]" "[]"]
  by (simp add: keywords_ok_def scan_ends_def close_offsets_def lower_bound_def
      boundaries_def file_offsets_def headers_clear_def ranges_ordered_def all_keywords_def
      Keyword.truncate_def)

section \<open>Properties of the node identifiers\<close>

lemma unat_mod3: "unat ((x :: size_t) mod 3) = unat x mod 3"
  by (simp add: unat_mod)

lemma unat_pbegin: "unat (pbegin E) = (3 - unat E mod 3) mod 3"
proof -
  have le: "E mod 3 \<le> 3" by (simp add: word_le_nat_alt unat_mod3)
  have "unat (3 - E mod 3) = 3 - unat E mod 3" using le by (simp add: unat_sub unat_mod3)
  then show ?thesis by (simp add: pbegin_def unat_mod)
qed



lemma c3_add_mult: "c3 (3 * a + t) = a + c3 t"
  unfolding c3_def by simp

lemma pad_small: "r < 3 \<Longrightarrow> r + (3 - r) mod 3 = 3 * c3 r"
proof -
  assume "r < 3"
  then consider "r = 0" | "r = 1" | "r = 2" by linarith
  then show ?thesis
  proof cases
    case 1 show ?thesis unfolding 1 c3_def by simp
  next
    case 2 show ?thesis unfolding 2 c3_def by simp
  next
    case 3 show ?thesis unfolding 3 c3_def by simp
  qed
qed

lemma pad3: "n + (3 - n mod 3) mod 3 = 3 * c3 n"
proof -
  have "n = 3 * (n div 3) + n mod 3" by simp
  then have "c3 n = n div 3 + c3 (n mod 3)" by (metis c3_add_mult)
  moreover have "n mod 3 + (3 - n mod 3) mod 3 = 3 * c3 (n mod 3)"
    by (rule pad_small) simp
  moreover have "n = 3 * (n div 3) + n mod 3" by simp
  ultimately show ?thesis by linarith
qed

lemma noffset_nat:
  assumes "p = (3 - E mod 3) mod 3"
  shows "(E + p) div 3 = c3 E"
  unfolding assms pad3 by simp

lemma csize_ascii_nat:
  assumes "p = (3 - E mod 3) mod 3" "p \<le> s" "m = (3 - (s - p) mod 3) mod 3"
  shows "(s + m - p) div 3 = c3 (E + s) - c3 E"
proof -
  have "s + m - p = (s - p) + m" using assms(2) by simp
  also have "\<dots> = 3 * c3 (s - p)" unfolding assms(3) by (rule pad3)
  finally have l: "(s + m - p) div 3 = c3 (s - p)" by simp
  have "E + s = (E + p) + (s - p)" using assms(2) by simp
  also have "E + p = 3 * c3 E" unfolding assms(1) by (rule pad3)
  finally have "c3 (E + s) = c3 E + c3 (s - p)" by (simp only: c3_add_mult)
  with l show ?thesis by simp
qed

lemma csize_binary_nat:
  assumes "p = (3 - E mod 3) mod 3" "E mod 3 = 0" "s mod 3 = 0"
  shows "(s - p) div 3 = c3 (E + s) - c3 E"
proof -
  have p: "p = 0" unfolding assms(1) assms(2) by simp
  have "3 dvd E" "3 dvd s" using assms(2,3) by (simp_all add: dvd_eq_mod_eq_0)
  then obtain a b where a: "E = 3 * a" and b: "s = 3 * b" by (auto simp: dvd_def)
  have "c3 (E + s) = a + b" "c3 E = a" unfolding a b c3_def by simp_all
  then show ?thesis unfolding p b by simp
qed

lemma unat_pmissing:
  assumes "pbegin E \<le> s"
  shows "unat (pmissing E s) = (3 - (unat s - unat (pbegin E)) mod 3) mod 3"
proof -
  let ?d = "s - pbegin E"
  have d: "unat ?d = unat s - unat (pbegin E)" using assms by (rule unat_sub)
  have le: "?d mod 3 \<le> 3" by (simp add: word_le_nat_alt unat_mod3)
  have "unat (3 - ?d mod 3) = unat (3 :: size_t) - unat (?d mod 3)" using le by (rule unat_sub)
  then have "unat (3 - ?d mod 3) = 3 - unat ?d mod 3" by (simp add: unat_mod3)
  then have "unat ((3 - ?d mod 3) mod 3) = (3 - unat ?d mod 3) mod 3" by (simp add: unat_mod)
  then show ?thesis unfolding pmissing_def d .
qed

lemma nIDs_worker:
  assumes fit: "unat E + unat s + 3 < 2 ^ 64"
    and pb: "unat (pbegin E) \<le> unat s"
    and bin: "format \<noteq> ASCII \<longrightarrow> unat E mod 3 = 0 \<and> unat s mod 3 = 0"
  shows "nIDs nidoffset E (completed_size format E s)
     = map (\<lambda>i. nidoffset + of_nat i + of_nat (c3 (unat E))) [0..<c3 (unat E + unat s) - c3 (unat E)]"
proof -
  define p where "p = unat (pbegin E)"
  define e where "e = unat E"
  define n where "n = unat s"
  have pbn: "p = (3 - e mod 3) mod 3" unfolding p_def e_def by (rule unat_pbegin)
  have pb3: "p < 3" unfolding pbn by simp
  have fit': "e + n + 3 < 2 ^ 64" using fit unfolding e_def n_def .
  have pn: "p \<le> n" using pb unfolding p_def n_def .
  have "unat E + unat (pbegin E) < 2 ^ LENGTH(64)"
    using fit' pb3 unfolding e_def p_def by simp
  then have "unat (E + pbegin E) = e + p"
    unfolding e_def p_def by (rule unat_add_lem[THEN iffD1])
  then have "unat ((E + pbegin E) div 3) = (e + p) div 3" by (simp add: unat_div)
  then have "unat ((E + pbegin E) div 3) = c3 e" using noffset_nat[OF pbn] by simp
  then have noff: "(E + pbegin E) div 3 = of_nat (c3 (unat E))"
    unfolding e_def by (metis of_nat_unat ucast_id)
  have ple: "pbegin E \<le> s" using pb by (simp add: word_le_nat_alt)
  have cs: "unat ((completed_size format E s - pbegin E) div 3) = c3 (e + n) - c3 e"
  proof (cases "format = ASCII")
    case True
    define m where "m = unat (pmissing E s)"
    have pm: "m = (3 - (n - p) mod 3) mod 3"
      unfolding m_def n_def p_def by (rule unat_pmissing[OF ple])
    have pm3: "m < 3" unfolding pm by simp
    have "unat s + unat (pmissing E s) < 2 ^ LENGTH(64)"
      using fit' pm3 unfolding n_def m_def by simp
    then have add: "unat (s + pmissing E s) = n + m"
      unfolding n_def m_def by (rule unat_add_lem[THEN iffD1])
    have "pbegin E \<le> s + pmissing E s"
      unfolding word_le_nat_alt add using pn unfolding p_def by simp
    then have "unat (s + pmissing E s - pbegin E) = unat (s + pmissing E s) - unat (pbegin E)"
      by (rule unat_sub)
    then have "unat (s + pmissing E s - pbegin E) = n + m - p" unfolding add p_def .
    then have "unat ((s + pmissing E s - pbegin E) div 3) = (n + m - p) div 3"
      by (simp add: unat_div)
    also have "\<dots> = c3 (e + n) - c3 e" by (rule csize_ascii_nat[OF pbn pn pm])
    finally show ?thesis using True by (simp add: completed_size_def)
  next
    case False
    then have z: "e mod 3 = 0" "n mod 3 = 0" using bin unfolding e_def n_def by simp_all
    have "unat (s - pbegin E) = n - p" unfolding n_def p_def using ple by (rule unat_sub)
    then have "unat ((s - pbegin E) div 3) = (n - p) div 3" by (simp add: unat_div)
    also have "\<dots> = c3 (e + n) - c3 e" by (rule csize_binary_nat[OF pbn z])
    finally show ?thesis using False by (simp add: completed_size_def)
  qed
  show ?thesis unfolding nIDs_def Let_def cs noff e_def n_def ..
qed

lemma fill_nIDs_nth:
  "f < length files \<Longrightarrow>
     fill_nIDs n0 files ! f
       = nIDs (n0 + sum_list (map (\<lambda>x. snd (snd x)) (take f files))) (fst (files ! f)) (fst (snd (files ! f)))"
proof (induction files arbitrary: n0 f)
  case Nil then show ?case by simp
next
  case (Cons x files)
  obtain np ps nf where x: "x = (np, ps, nf)" by (cases x)
  show ?case
  proof (cases f)
    case 0 then show ?thesis using x by simp
  next
    case (Suc g)
    then have "g < length files" using Cons.prems by simp
    from Cons.IH[OF this, of "n0 + nf"] show ?thesis using x Suc by (simp add: add.assoc)
  qed
qed

lemma length_fill_nIDs: "length (fill_nIDs n0 files) = length files"
  by (induction files arbitrary: n0) auto

lemma unat_sum_list:
  "sum_list (map unat ws) < 2 ^ 64 \<Longrightarrow> unat (sum_list ws :: size_t) = sum_list (map unat ws)"
proof (induction ws)
  case Nil show ?case by simp
next
  case (Cons w ws)
  then have "unat (sum_list ws) = sum_list (map unat ws)" by simp
  moreover have "unat w + unat (sum_list ws) < 2 ^ LENGTH(64)" using Cons.prems calculation by simp
  then have "unat (w + sum_list ws) = unat w + unat (sum_list ws)" by (rule unat_add_lem[THEN iffD1])
  ultimately show ?case by simp
qed

lemma values_before_le: "values_before sizes k \<le> sum_list (map unat sizes)"
proof -
  have "sum_list (map unat sizes) = sum_list (map unat (take k sizes)) + sum_list (map unat (drop k sizes))"
    by (metis append_take_drop_id map_append sum_list_append)
  then show ?thesis by (simp add: values_before_def)
qed

lemma values_before_Suc: "k < length sizes \<Longrightarrow> values_before sizes (Suc k) = values_before sizes k + unat (sizes ! k)"
  by (simp add: values_before_def take_Suc_conv_app_nth)

lemma values_before_all: "values_before sizes (length sizes) = sum_list (map unat sizes)"
  by (simp add: values_before_def)

lemma unat_exscan:
  "sum_list (map unat sizes) < 2 ^ 64 \<Longrightarrow> unat (exscan sizes k) = values_before sizes k"
  unfolding exscan_def values_before_def using values_before_le[of sizes k, unfolded values_before_def]
  by (intro unat_sum_list) simp

lemma values_before_mod3:
  "\<forall>k<length sizes. unat (sizes ! k) mod 3 = 0 \<Longrightarrow> k \<le> length sizes \<Longrightarrow>
     values_before sizes k mod 3 = 0"
proof (induction k)
  case 0 show ?case by (simp add: values_before_def)
next
  case (Suc k)
  then have "3 dvd values_before sizes k" "3 dvd unat (sizes ! k)"
    by (simp_all add: dvd_eq_mod_eq_0)
  then have "3 dvd values_before sizes k + unat (sizes ! k)" by (rule dvd_add)
  moreover have "values_before sizes (Suc k) = values_before sizes k + unat (sizes ! k)"
    using Suc.prems by (intro values_before_Suc) simp
  ultimately show ?case by (simp only: dvd_eq_mod_eq_0)
qed

lemma c3_mono: "a \<le> b \<Longrightarrow> c3 a \<le> c3 b"
  unfolding c3_def by (simp add: div_le_mono)

lemma worker_nIDs_eq:
  assumes fit: "sum_list (map unat sizes) + 3 < 2 ^ 64"
    and pb: "\<forall>k<length sizes. unat (pbegin (exscan sizes k)) \<le> unat (sizes ! k)"
    and bin: "format \<noteq> ASCII \<longrightarrow> (\<forall>k<length sizes. unat (sizes ! k) mod 3 = 0)"
    and k: "k < length sizes"
  shows "worker_nIDs format nidoffset sizes k
     = map (\<lambda>i. nidoffset + of_nat i + of_nat (c3 (values_before sizes k))) [0..<c3 (values_before sizes (Suc k)) - c3 (values_before sizes k)]"
proof -
  have ex: "unat (exscan sizes k) = values_before sizes k" using fit by (intro unat_exscan) simp
  have "values_before sizes (Suc k) \<le> sum_list (map unat sizes)" by (rule values_before_le)
  then have 1: "unat (exscan sizes k) + unat (sizes ! k) + 3 < 2 ^ 64"
    using fit k by (simp add: ex values_before_Suc)
  have 2: "unat (pbegin (exscan sizes k)) \<le> unat (sizes ! k)" using pb k by simp
  have 3: "format \<noteq> ASCII \<longrightarrow> unat (exscan sizes k) mod 3 = 0 \<and> unat (sizes ! k) mod 3 = 0"
    using bin k values_before_mod3[of sizes k] by (simp add: ex)
  show ?thesis
    unfolding worker_nIDs_def nIDs_worker[OF 1 2 3] ex values_before_Suc[OF k] ..
qed

lemma map_shift_upt:
  "a \<le> b \<Longrightarrow> map (\<lambda>i. n + of_nat i + (of_nat a :: size_t)) [0..<b - a] = map (\<lambda>i. n + of_nat i) [a..<b]"
  by (rule nth_equalityI) (simp_all add: add.commute add.left_commute)

lemma values_before_mono: "j \<le> k \<Longrightarrow> k \<le> length sizes \<Longrightarrow> values_before sizes j \<le> values_before sizes k"
proof (induction k)
  case 0 then show ?case by simp
next
  case (Suc k)
  show ?case
  proof (cases "j = Suc k")
    case True then show ?thesis by simp
  next
    case False
    then have "values_before sizes j \<le> values_before sizes k" using Suc by simp
    also have "\<dots> \<le> values_before sizes (Suc k)" using Suc.prems by (simp add: values_before_Suc)
    finally show ?thesis .
  qed
qed

lemma worker_count:
  assumes fit: "sum_list (map unat sizes) + 3 < 2 ^ 64"
    and pb: "\<forall>k<length sizes. unat (pbegin (exscan sizes k)) \<le> unat (sizes ! k)"
    and bin: "format \<noteq> ASCII \<longrightarrow> (\<forall>k<length sizes. unat (sizes ! k) mod 3 = 0)"
    and k: "k < length sizes"
  shows "length (worker_nIDs format nidoffset sizes k) = c3 (values_before sizes (Suc k)) - c3 (values_before sizes k)"
  by (simp add: worker_nIDs_eq[OF fit pb bin k])

lemma prefix_count:
  assumes fit: "sum_list (map unat sizes) + 3 < 2 ^ 64"
    and pb: "\<forall>k<length sizes. unat (pbegin (exscan sizes k)) \<le> unat (sizes ! k)"
    and bin: "format \<noteq> ASCII \<longrightarrow> (\<forall>k<length sizes. unat (sizes ! k) mod 3 = 0)"
  shows "k \<le> length sizes \<Longrightarrow>
    sum_list (map (\<lambda>j. length (worker_nIDs format nidoffset sizes j)) [0..<k]) = c3 (values_before sizes k)"
proof (induction k)
  case 0 show ?case by (simp add: values_before_def c3_def)
next
  case (Suc k)
  then have k: "k < length sizes" by simp
  have "c3 (values_before sizes k) \<le> c3 (values_before sizes (Suc k))"
    using values_before_mono[of k "Suc k" sizes] Suc.prems by (intro c3_mono) simp
  then show ?case using Suc k by (simp add: worker_count[OF fit pb bin k])
qed

lemma concat_workers:
  assumes fit: "sum_list (map unat sizes) + 3 < 2 ^ 64"
    and pb: "\<forall>k<length sizes. unat (pbegin (exscan sizes k)) \<le> unat (sizes ! k)"
    and bin: "format \<noteq> ASCII \<longrightarrow> (\<forall>k<length sizes. unat (sizes ! k) mod 3 = 0)"
  shows "k \<le> length sizes \<Longrightarrow>
    concat (map (worker_nIDs format nidoffset sizes) [0..<k])
      = map (\<lambda>i. nidoffset + of_nat i) [0..<c3 (values_before sizes k)]"
proof (induction k)
  case 0 show ?case by (simp add: values_before_def c3_def)
next
  case (Suc k)
  then have k: "k < length sizes" by simp
  have le: "c3 (values_before sizes k) \<le> c3 (values_before sizes (Suc k))"
    using values_before_mono[of k "Suc k" sizes] Suc.prems by (intro c3_mono) simp
  have "[0..<c3 (values_before sizes (Suc k))] = [0..<c3 (values_before sizes k)] @ [c3 (values_before sizes k)..<c3 (values_before sizes (Suc k))]"
    using le by (metis le_add_diff_inverse upt_add_eq_append zero_le)
  then show ?case
    using Suc k by (simp add: worker_nIDs_eq[OF fit pb bin k] map_shift_upt[OF le])
qed

lemma unat_ids:
  assumes "unat n + m \<le> 2 ^ 64"
  shows "map unat (map (\<lambda>i. n + (of_nat i :: size_t)) [0..<m]) = [unat n..<unat n + m]"
proof (rule nth_equalityI)
  show "length (map unat (map (\<lambda>i. n + (of_nat i :: size_t)) [0..<m])) = length [unat n..<unat n + m]"
    by simp
next
  fix i assume "i < length (map unat (map (\<lambda>i. n + (of_nat i :: size_t)) [0..<m]))"
  then have i: "i < m" by simp
  then have i64: "i < 2 ^ LENGTH(64)" using assms by simp
  have ui: "unat (of_nat i :: size_t) = i" using i64 by (simp add: unat_of_nat)
  have "unat n + unat (of_nat i :: size_t) < 2 ^ LENGTH(64)" using i assms ui by simp
  then have "unat (n + of_nat i) = unat n + i" using ui by (simp add: unat_add_lem[THEN iffD1])
  then show "map unat (map (\<lambda>i. n + (of_nat i :: size_t)) [0..<m]) ! i = [unat n..<unat n + m] ! i"
    using i by simp
qed

text \<open>Where the decoded arrays are consistent, the identifiers are contiguous: let the
  workers' decoded point arrays of a file have the sizes \<open>sizes\<close> (in rank order, their sum
  within \<^verbatim>\<open>size_t\<close>), let every worker hold at least the values that complete its
  predecessor's last point, and let the arrays of a binary file hold whole triples. Then
  the identifiers of worker \<open>k\<close> are the accumulator \<open>nidoffset\<close> plus the local index plus
  the number of identifiers of the workers before \<open>k\<close>; the identifiers of all workers, in
  rank order, are \<open>nidoffset\<close>, \<open>nidoffset + 1\<close>, ... without gap or repetition; and for
  the file \<open>f\<close> of the loop the accumulator is the start value plus the sum of \<^verbatim>\<open>nn\<close> over
  the files before \<open>f\<close>.\<close>

lemma node_ids_contiguous:
  assumes fit: "sum_list (map unat sizes) + 3 < 2 ^ 64"
    and pb: "\<forall>k<length sizes. unat (pbegin (exscan sizes k)) \<le> unat (sizes ! k)"
    and bin: "format \<noteq> ASCII \<longrightarrow> (\<forall>k<length sizes. unat (sizes ! k) mod 3 = 0)"
  shows "(\<forall>k<length sizes.
            worker_nIDs format nidoffset sizes k
              = map (\<lambda>i. nidoffset + of_nat i
                      + of_nat (sum_list (map (\<lambda>j. length (worker_nIDs format nidoffset sizes j)) [0..<k])))
                  [0..<length (worker_nIDs format nidoffset sizes k)])
       \<and> concat (map (worker_nIDs format nidoffset sizes) [0..<length sizes])
            = map (\<lambda>i. nidoffset + of_nat i) [0..<c3 (sum_list (map unat sizes))]
       \<and> (unat nidoffset + c3 (sum_list (map unat sizes)) \<le> 2 ^ 64 \<longrightarrow>
            map unat (concat (map (worker_nIDs format nidoffset sizes) [0..<length sizes]))
              = [unat nidoffset..<unat nidoffset + c3 (sum_list (map unat sizes))])
       \<and> (\<forall>f<length files.
            fill_nIDs nidoffset files ! f
              = nIDs (nidoffset + sum_list (map (\<lambda>x. snd (snd x)) (take f files)))
                  (fst (files ! f)) (fst (snd (files ! f))))"
proof (intro conjI allI impI)
  fix k assume k: "k < length sizes"
  show "worker_nIDs format nidoffset sizes k
      = map (\<lambda>i. nidoffset + of_nat i
              + of_nat (sum_list (map (\<lambda>j. length (worker_nIDs format nidoffset sizes j)) [0..<k])))
          [0..<length (worker_nIDs format nidoffset sizes k)]"
    unfolding prefix_count[OF fit pb bin less_imp_le[OF k]] worker_count[OF fit pb bin k]
    by (rule worker_nIDs_eq[OF fit pb bin k])
next
  show c: "concat (map (worker_nIDs format nidoffset sizes) [0..<length sizes])
      = map (\<lambda>i. nidoffset + of_nat i) [0..<c3 (sum_list (map unat sizes))]"
    using concat_workers[OF fit pb bin le_refl] by (simp add: values_before_all)
  assume "unat nidoffset + c3 (sum_list (map unat sizes)) \<le> 2 ^ 64"
  then show "map unat (concat (map (worker_nIDs format nidoffset sizes) [0..<length sizes]))
      = [unat nidoffset..<unat nidoffset + c3 (sum_list (map unat sizes))]"
    unfolding c by (rule unat_ids)
next
  fix f assume "f < length files"
  then show "fill_nIDs nidoffset files ! f
      = nIDs (nidoffset + sum_list (map (\<lambda>x. snd (snd x)) (take f files)))
          (fst (files ! f)) (fst (snd (files ! f)))"
    by (rule fill_nIDs_nth)
qed

text \<open>Instances: three workers with 4, 2 and 6 values of an ASCII file, three workers
  with 3, 0 and 6 values of a binary file, and a loop over two files.\<close>

lemma node_ids_contiguous_instance:
  "map (worker_nIDs ASCII 10 [4, 2, 6]) [0, 1, 2] = [[10, 11], [], [12, 13]]
   \<and> concat (map (worker_nIDs ASCII 10 [4, 2, 6]) [0..<3]) = [10, 11, 12, 13]
   \<and> map (worker_nIDs BINARY 0 [3, 0, 6]) [0, 1, 2] = [[0], [], [1, 2]]
   \<and> fill_nIDs 0 [(0, 6, 2), (3, 3, 4)] = [[0, 1], [3]]"
  using node_ids_contiguous [of "[4, 2, 6]" ASCII 10 "[(0, 6, 2), (3, 3, 4)]"]
    node_ids_contiguous [of "[3, 0, 6]" BINARY 0 "[(0, 6, 2), (3, 3, 4)]"]
  by (simp add: worker_nIDs_def nIDs_def exscan_def completed_size_def pmissing_def pbegin_def
      upt_rec)

text \<open>C4, at a binary file of 156 bytes whose three \<^verbatim>\<open>float\<close> points span bytes 77 to 113,
  with worker 0 owning bytes 0 to 76 and worker 1 the rest: worker 0 decodes 2 values
  (the end 76 of its part lies before the record, \<open>76 - 77\<close> wraps around in \<^verbatim>\<open>round\<close>),
  worker 1 decodes the 9 values of the record, and the identifiers emitted are none for
  worker 0 and 1, 2 for worker 1: two identifiers for three points, and not from 0 on.
  And for an ASCII file whose workers decode 1, 1 and 4 values, the number of
  identifiers of the second worker wraps around, since it holds fewer values than
  \<^verbatim>\<open>pbegin\<close>.\<close>

theorem node_ids_before_record:
  "map_option length
     (read 4 id 0 (worker_pack [0, 76, 156] (replicate 156 0) 0)
        \<lparr>fileindex = 0, rank = 0, offset = 62, begin_byte = 77, end_byte = 113\<rparr> [] 12)
     = Some 2
   \<and> map_option length
     (read 4 id 1 (worker_pack [0, 76, 156] (replicate 156 0) 1)
        \<lparr>fileindex = 0, rank = 0, offset = 62, begin_byte = 77, end_byte = 113\<rparr> [] 12)
     = Some 9
   \<and> map (worker_nIDs BINARY 0 [2, 9]) [0, 1] = [[], [1, 2]]
   \<and> length (worker_nIDs ASCII 0 [1, 1, 4] 1) = 6148914691236517205"
proof -
  have r0: "map_option length
     (read 4 id 0 (worker_pack [0, 76, 156] (replicate 156 0) 0)
        \<lparr>fileindex = 0, rank = 0, offset = 62, begin_byte = 77, end_byte = 113\<rparr> [] 12)
     = Some 2"
    by (simp add: read_def read_range_def round_def memcpy_def elements_def worker_pack_def)
  have r1: "map_option length
     (read 4 id 1 (worker_pack [0, 76, 156] (replicate 156 0) 1)
        \<lparr>fileindex = 0, rank = 0, offset = 62, begin_byte = 77, end_byte = 113\<rparr> [] 12)
     = Some 9"
    by (simp add: read_def read_range_def round_def memcpy_def elements_def worker_pack_def)
  have ids: "map (worker_nIDs BINARY 0 [2, 9]) [0, 1] = [[], [1, 2]]"
    by (simp add: worker_nIDs_def nIDs_def exscan_def completed_size_def pbegin_def upt_rec)
  have wrap: "length (worker_nIDs ASCII 0 [1, 1, 4] 1) = 6148914691236517205"
    by (simp add: worker_nIDs_def nIDs_def exscan_def completed_size_def pmissing_def pbegin_def)
  show ?thesis by (intro conjI r0 r1 ids wrap)
qed

section \<open>Properties of the boundary completion\<close>

lemma div_add_mult: "0 < (c::nat) \<Longrightarrow> (x + q * c) div c = x div c + q"
  by simp

lemma ceil_to_cases:
  assumes "0 < c"
  shows "ceil_to c n = (if n mod c = 0 then n else n + (c - n mod c))"
proof -
  define q r where "q = n div c" and "r = n mod c"
  have n: "n = q * c + r" and r: "r < c" using assms by (simp_all add: q_def r_def)
  show ?thesis
  proof (cases "r = 0")
    case True
    have e: "n + c - 1 = (c - 1) + q * c" using n True assms by simp
    have "(n + c - 1) div c = (c - 1) div c + q"
      unfolding e using assms by (rule div_add_mult)
    also have "\<dots> = q" using assms by simp
    finally have d: "(n + c - 1) div c = q" .
    have "ceil_to c n = q * c" unfolding ceil_to_def d ..
    moreover have "q * c = n" using n True by simp
    moreover have "n mod c = 0" using True by (simp add: r_def)
    ultimately show ?thesis by simp
  next
    case False
    have e: "n + c - 1 = (r - 1) + (q + 1) * c" using n False by simp
    have "(n + c - 1) div c = (r - 1) div c + (q + 1)"
      unfolding e using assms by (rule div_add_mult)
    also have "\<dots> = q + 1" using r by simp
    finally have d: "(n + c - 1) div c = q + 1" .
    have "ceil_to c n = (q + 1) * c" unfolding ceil_to_def d ..
    moreover have "(q + 1) * c = n + (c - r)" using n r by simp
    moreover have "n mod c \<noteq> 0" "n mod c = r" using False by (simp_all add: r_def)
    ultimately show ?thesis by simp
  qed
qed

lemma round_unat:
  assumes "start \<le> current" "chunk \<noteq> 0" "unat current + unat chunk < 2 ^ 64"
  shows "unat (round current start chunk) = unat start + ceil_to (unat chunk) (unat current - unat start)"
proof -
  have c0: "0 < unat chunk" using assms(2) by (simp add: unat_gt_0)
  have d: "unat (current - start) = unat current - unat start"
    using assms(1) by (simp add: unat_sub)
  have m: "unat ((current - start) mod chunk) = (unat current - unat start) mod unat chunk"
    by (simp add: unat_mod d)
  have le: "unat start \<le> unat current" using assms(1) by (simp add: word_le_nat_alt)
  show ?thesis
  proof (cases "(current - start) mod chunk = 0")
    case True
    then have "(unat current - unat start) mod unat chunk = 0" using m by simp
    then show ?thesis using True le by (simp add: round_def ceil_to_cases[OF c0])
  next
    case False
    then have nz: "(unat current - unat start) mod unat chunk \<noteq> 0" using m by (metis unat_eq_zero)
    let ?r = "(current - start) mod chunk"
    have rlt: "unat ?r < unat chunk" using m c0 by simp
    have "?r \<le> chunk" using rlt by (simp add: word_le_nat_alt)
    then have s: "unat (chunk - ?r) = unat chunk - unat ?r" by (simp add: unat_sub)
    have "unat (current + (chunk - ?r)) = unat current + unat (chunk - ?r)"
      using assms(3) s by (simp add: unat_add_lem[THEN iffD1])
    then show ?thesis using False nz le s m by (simp add: round_def ceil_to_cases[OF c0])
  qed
qed

lemma unat_of_nat_len: "n < 2 ^ 64 \<Longrightarrow> unat (of_nat n :: size_t) = n"
proof -
  assume n: "n < 2 ^ 64"
  have "unat (of_nat n :: size_t) = n mod 2 ^ LENGTH(64)" by (rule unat_of_nat)
  also have "\<dots> = n" using n by simp
  finally show ?thesis .
qed

lemma coordinates_triples:
  assumes len: "length points < 2 ^ 64" and pb: "unat (pbegin np) \<le> length points"
  shows "coordinates np points = Some (triples (drop (unat (pbegin np)) points))"
proof -
  define p where "p = unat (pbegin np)"
  define l where "l = length points"
  have ul: "unat (of_nat l :: size_t) = l" using len unfolding l_def by (rule unat_of_nat_len)
  have "pbegin np \<le> of_nat l" unfolding word_le_nat_alt ul using pb unfolding l_def .
  then have "unat (of_nat l - pbegin np) = unat (of_nat l :: size_t) - unat (pbegin np)"
    by (rule unat_sub)
  then have "unat ((of_nat l - pbegin np) div 3) = (l - p) div 3"
    unfolding ul p_def by (simp add: unat_div)
  then have cs: "unat ((of_nat (length points) - pbegin np) div 3) = (l - p) div 3"
    unfolding l_def .
  have pl: "p \<le> l" using pb unfolding p_def l_def .
  have "3 * ((l - p) div 3) \<le> l - p" by simp
  then have fits: "3 * ((l - p) div 3) + p \<le> length points" using pl unfolding l_def by simp
  have "map (\<lambda>i. (points ! (3 * i + p + 0), points ! (3 * i + p + 1), points ! (3 * i + p + 2)))
          [0..<(l - p) div 3]
      = triples (drop p points)"
    unfolding triples_def
  proof (rule nth_equalityI)
    show "length (map (\<lambda>i. (points ! (3 * i + p + 0), points ! (3 * i + p + 1),
            points ! (3 * i + p + 2))) [0..<(l - p) div 3])
        = length (map (\<lambda>i. (drop p points ! (3 * i), drop p points ! (3 * i + 1),
            drop p points ! (3 * i + 2))) [0..<length (drop p points) div 3])"
      by (simp add: l_def)
  next
    fix i assume "i < length (map (\<lambda>i. (points ! (3 * i + p + 0), points ! (3 * i + p + 1),
            points ! (3 * i + p + 2))) [0..<(l - p) div 3])"
    then have i: "i < (l - p) div 3" by simp
    then have "3 * i + 3 \<le> l - p" by simp
    then have b: "p + (3 * i + 2) < length points" using pl unfolding l_def by simp
    have n0: "drop p points ! (3 * i) = points ! (3 * i + p + 0)"
      using b by (simp add: add.commute)
    have n1: "drop p points ! (3 * i + 1) = points ! (3 * i + p + 1)"
      using b by (simp add: add.commute add.left_commute)
    have n2: "drop p points ! (3 * i + 2) = points ! (3 * i + p + 2)"
      using b by (simp add: add.commute add.left_commute)
    show "map (\<lambda>i. (points ! (3 * i + p + 0), points ! (3 * i + p + 1),
            points ! (3 * i + p + 2))) [0..<(l - p) div 3] ! i
        = map (\<lambda>i. (drop p points ! (3 * i), drop p points ! (3 * i + 1),
            drop p points ! (3 * i + 2))) [0..<length (drop p points) div 3] ! i"
      using i pl by (simp add: l_def add_ac)
  qed
  then show ?thesis
    unfolding coordinates_def Let_def cs using fits by (simp add: p_def)
qed

lemma mod3_small:
  assumes "r < (3::nat)" "t < 3" "(r + t) mod 3 = 0"
  shows "t = (3 - r) mod 3"
proof -
  from assms(1) consider "r = 0" | "r = 1" | "r = 2" by linarith
  then show ?thesis
  proof cases
    case 1
    have "t mod 3 = 0" using assms(3) unfolding 1 by simp
    then have "t = 0" using assms(2) by simp
    then show ?thesis unfolding 1 by simp
  next
    case 2
    from assms(2) consider "t = 0" | "t = 1" | "t = 2" by linarith
    then show ?thesis
    proof cases
      case 1 show ?thesis using assms(3) unfolding 1 2 by simp
    next
      case 2 show ?thesis using assms(3) unfolding 2 \<open>r = 1\<close> by simp
    next
      case 3 show ?thesis unfolding 3 \<open>r = 1\<close> by simp
    qed
  next
    case 3
    from assms(2) consider "t = 0" | "t = 1" | "t = 2" by linarith
    then show ?thesis
    proof cases
      case 1 show ?thesis using assms(3) unfolding 1 3 by simp
    next
      case 2 show ?thesis unfolding 2 \<open>r = 2\<close> by simp
    next
      case 3 show ?thesis using assms(3) unfolding 3 \<open>r = 2\<close> by simp
    qed
  qed
qed

lemma mod3_compl:
  assumes "(a + b) mod 3 = (0::nat)"
  shows "b mod 3 = (3 - a mod 3) mod 3"
proof -
  have "(a mod 3 + b mod 3) mod 3 = 0" using assms by (simp add: mod_add_eq)
  then show ?thesis by (intro mod3_small) simp_all
qed


lemma triples_append:
  assumes "length xs mod 3 = 0"
  shows "triples (xs @ ys) = triples xs @ triples ys"
proof -
  have "3 dvd length xs" using assms by (simp add: dvd_eq_mod_eq_0)
  then obtain n where n: "length xs = 3 * n" by (auto simp: dvd_def)
  have ld: "(length xs + length ys) div 3 = n + length ys div 3" unfolding n by simp
  show ?thesis
  proof (rule nth_equalityI)
    show "length (triples (xs @ ys)) = length (triples xs @ triples ys)"
      by (simp add: triples_def ld n)
  next
    fix i assume "i < length (triples (xs @ ys))"
    then have i: "i < n + length ys div 3" by (simp add: triples_def ld)
    show "triples (xs @ ys) ! i = (triples xs @ triples ys) ! i"
    proof (cases "i < n")
      case True
      then have "3 * i + 2 < length xs" unfolding n by simp
      then have "(xs @ ys) ! (3 * i) = xs ! (3 * i)" "(xs @ ys) ! (3 * i + 1) = xs ! (3 * i + 1)"
        "(xs @ ys) ! (3 * i + 2) = xs ! (3 * i + 2)"
        by (simp_all add: nth_append)
      then show ?thesis using True i by (simp add: triples_def ld n nth_append)
    next
      case False
      define j where "j = i - n"
      have ij: "i = n + j" and j: "j < length ys div 3" using False i by (simp_all add: j_def)
      have a: "3 * i = length xs + 3 * j" unfolding n ij by simp
      have "(xs @ ys) ! (length xs + 3 * j) = ys ! (3 * j)"
        "(xs @ ys) ! (length xs + (3 * j + 1)) = ys ! (3 * j + 1)"
        "(xs @ ys) ! (length xs + (3 * j + 2)) = ys ! (3 * j + 2)"
        by (simp_all only: nth_append_length_plus)
      then have e: "(xs @ ys) ! (3 * i) = ys ! (3 * j)" "(xs @ ys) ! (3 * i + 1) = ys ! (3 * j + 1)"
        "(xs @ ys) ! (3 * i + 2) = ys ! (3 * j + 2)"
        unfolding a by (simp_all only: add.assoc)
      have l: "triples (xs @ ys) ! i
          = ((xs @ ys) ! (3 * i), (xs @ ys) ! (3 * i + 1), (xs @ ys) ! (3 * i + 2))"
        using i unfolding triples_def by (simp add: ld)
      have lx: "length (triples xs) = n" by (simp add: triples_def n)
      have "(triples xs @ triples ys) ! i = triples ys ! j"
        unfolding ij using lx by (metis nth_append_length_plus)
      also have "\<dots> = (ys ! (3 * j), ys ! (3 * j + 1), ys ! (3 * j + 2))"
        using j unfolding triples_def by simp
      finally show ?thesis unfolding l e by simp
    qed
  qed
qed

lemma exscan_0: "exscan xs 0 = 0"
  by (simp add: exscan_def)

lemma exscan_1: "exscan [x, y] 1 = x"
  by (simp add: exscan_def)

lemma pbegin_0: "pbegin 0 = 0"
  by (simp add: pbegin_def)

lemma pad_length:
  "(3 - (n::nat) mod 3) mod 3 = 0 \<longleftrightarrow> n mod 3 = 0"
proof -
  have "n mod 3 < 3" by simp
  then consider "n mod 3 = 0" | "n mod 3 = 1" | "n mod 3 = 2" by linarith
  then show ?thesis
  proof cases
    case 1 show ?thesis unfolding 1 by simp
  next
    case 2 show ?thesis unfolding 2 by simp
  next
    case 3 show ?thesis unfolding 3 by simp
  qed
qed

lemma complete_points_aligned:
  assumes len: "length points < 2 ^ 64" and pb: "unat (pbegin np) \<le> length points"
    and al: "(length points - unat (pbegin np)) mod 3 = 0"
  shows "complete_points format np points following = points"
proof (cases "format = ASCII")
  case False then show ?thesis by (simp add: complete_points_def)
next
  case True
  have ul: "unat (of_nat (length points) :: size_t) = length points"
    using len by (rule unat_of_nat_len)
  have "pbegin np \<le> of_nat (length points)" unfolding word_le_nat_alt ul using pb .
  then have "unat (pmissing np (of_nat (length points)))
      = (3 - (unat (of_nat (length points) :: size_t) - unat (pbegin np)) mod 3) mod 3"
    by (rule unat_pmissing)
  then have "unat (pmissing np (of_nat (length points)))
      = (3 - (length points - unat (pbegin np)) mod 3) mod 3"
    unfolding ul .
  then have "unat (pmissing np (of_nat (length points))) = 0" unfolding al by simp
  then show ?thesis by (simp add: complete_points_def addmore_def)
qed

lemma points_completion:
  assumes L: "length (a0 @ a1) mod 3 = 0"
    and fit: "length (a0 @ a1) + 3 < 2 ^ 64"
    and bin: "format \<noteq> ASCII \<longrightarrow> length a0 mod 3 = 0"
  shows "\<exists>c0 c1.
     coordinates (exscan [of_nat (length a0), of_nat (length a1)] 0)
        (complete_points format (exscan [of_nat (length a0), of_nat (length a1)] 0) a0 a1) = Some c0
   \<and> coordinates (exscan [of_nat (length a0), of_nat (length a1)] 1)
        (complete_points format (exscan [of_nat (length a0), of_nat (length a1)] 1) a1 rest) = Some c1
   \<and> coordinates (exscan [of_nat (length (a0 @ a1))] 0)
        (complete_points format (exscan [of_nat (length (a0 @ a1))] 0) (a0 @ a1) rest)
        = Some (c0 @ c1)"
proof -
  define l0 l1 where "l0 = length a0" and "l1 = length a1"
  define p where "p = (3 - l0 mod 3) mod 3"
  have L': "(l0 + l1) mod 3 = 0" using L by (simp add: l0_def l1_def)
  have fit': "l0 + l1 + 3 < 2 ^ 64" using fit by (simp add: l0_def l1_def)
  have l0b: "l0 < 2 ^ 64" and l1b: "l1 < 2 ^ 64" and Lb: "length (a0 @ a1) < 2 ^ 64"
    using fit' by (simp_all add: l0_def l1_def)
  have ul0: "unat (of_nat l0 :: size_t) = l0" using l0b by (rule unat_of_nat_len)
  have l1p: "l1 mod 3 = p" unfolding p_def using L' by (rule mod3_compl)
  have p3: "p < 3" unfolding p_def by simp
  have pl1: "p \<le> l1" using l1p by (metis mod_less_eq_dividend)
  have l1d: "(l1 - p) mod 3 = 0" using l1p pl1 by (metis mod_eq_dvd_iff_nat mod_0_imp_dvd dvd_eq_mod_eq_0 mod_less p3)
  have pb1: "unat (pbegin (of_nat l0 :: size_t)) = p"
    unfolding unat_pbegin ul0 p_def ..
  \<comment> \<open>the single worker\<close>
  have sW: "complete_points format 0 (a0 @ a1) rest = a0 @ a1"
    using Lb L by (intro complete_points_aligned) (simp_all add: pbegin_0)
  have cW: "coordinates 0 (a0 @ a1) = Some (triples (a0 @ a1))"
    using coordinates_triples[of "a0 @ a1" 0] Lb by (simp add: pbegin_0)
  \<comment> \<open>worker 1\<close>
  have s1: "complete_points format (of_nat l0) a1 rest = a1"
    using l1b pl1 l1d by (intro complete_points_aligned) (simp_all add: pb1 l1_def)
  have c1: "coordinates (of_nat l0) a1 = Some (triples (drop p a1))"
    using coordinates_triples[of a1 "of_nat l0"] l1b pl1 by (simp add: pb1 l1_def)
  \<comment> \<open>worker 0\<close>
  define A0 where "A0 = complete_points format 0 a0 a1"
  have w0: "length A0 mod 3 = 0 \<and> length A0 < 2 ^ 64 \<and> A0 @ drop p a1 = a0 @ a1"
  proof (cases "format = ASCII")
    case False
    then have z: "l0 mod 3 = 0" using bin by (simp add: l0_def)
    then have "p = 0" unfolding p_def by simp
    then show ?thesis using False z l0b by (simp add: A0_def complete_points_def l0_def)
  next
    case True
    have "unat (pmissing 0 (of_nat l0 :: size_t)) = (3 - (unat (of_nat l0 :: size_t) - unat (pbegin 0)) mod 3) mod 3"
      by (rule unat_pmissing) (simp add: pbegin_0)
    then have pm: "unat (pmissing 0 (of_nat l0 :: size_t)) = p"
      unfolding ul0 pbegin_0 p_def by simp
    have A0: "A0 = a0 @ take p a1"
      using True pm by (simp add: A0_def complete_points_def addmore_def l0_def)
    have len: "length (a0 @ take p a1) = l0 + p" using pl1 by (simp add: l0_def l1_def)
    have "(l0 + p) mod 3 = (l0 + l1 mod 3) mod 3" unfolding l1p ..
    also have "\<dots> = (l0 + l1) mod 3" by (rule mod_add_right_eq)
    finally have m: "length (a0 @ take p a1) mod 3 = 0" unfolding len using L' by simp
    have "l0 + p < 2 ^ 64" using fit' pl1 by simp
    then have b: "length (a0 @ take p a1) < 2 ^ 64" unfolding len .
    have e: "(a0 @ take p a1) @ drop p a1 = a0 @ a1" by simp
    show ?thesis unfolding A0 by (intro conjI m b e)
  qed
  note A0 = A0_def[symmetric] conjunct1[OF w0] conjunct1[OF conjunct2[OF w0]]
    conjunct2[OF conjunct2[OF w0]]
  have c0: "coordinates 0 A0 = Some (triples A0)"
    using coordinates_triples[of A0 0] A0(3) by (simp add: pbegin_0)
  have "triples (A0 @ drop p a1) = triples A0 @ triples (drop p a1)"
    using A0(2) by (rule triples_append)
  then have t: "Some (triples (a0 @ a1)) = Some (triples A0 @ triples (drop p a1))"
    unfolding A0(4) by simp
  show ?thesis
    unfolding exscan_0 exscan_1 l0_def[symmetric] A0(1) s1 sW c0 c1 cW
    by (intro exI[of _ "triples A0"] exI[of _ "triples (drop p a1)"] conjI refl t)
qed

lemma elements_split:
  "elements sz (n0 + n1) buf = elements sz n0 buf @ elements sz n1 (drop (n0 * sz) buf)"
proof (rule nth_equalityI)
  show "length (elements sz (n0 + n1) buf)
      = length (elements sz n0 buf @ elements sz n1 (drop (n0 * sz) buf))"
    by (simp add: elements_def)
next
  fix i assume "i < length (elements sz (n0 + n1) buf)"
  then have i: "i < n0 + n1" by (simp add: elements_def)
  show "elements sz (n0 + n1) buf ! i
      = (elements sz n0 buf @ elements sz n1 (drop (n0 * sz) buf)) ! i"
  proof (cases "i < n0")
    case True
    then show ?thesis using i by (simp add: elements_def nth_append)
  next
    case False
    define j where "j = i - n0"
    have ij: "i = n0 + j" and j: "j < n1" using False i by (simp_all add: j_def)
    have l: "length (elements sz n0 buf) = n0" by (simp add: elements_def)
    have "(elements sz n0 buf @ elements sz n1 (drop (n0 * sz) buf)) ! (n0 + j)
        = elements sz n1 (drop (n0 * sz) buf) ! j"
      using l by (metis nth_append_length_plus)
    also have "\<dots> = take sz (drop (j * sz) (drop (n0 * sz) buf))"
      using j by (simp add: elements_def)
    also have "\<dots> = take sz (drop ((n0 + j) * sz) buf)"
      by (simp add: add_mult_distrib add.commute)
    also have "\<dots> = elements sz (n0 + n1) buf ! (n0 + j)"
      using j by (simp add: elements_def)
    finally show ?thesis unfolding ij by simp
  qed
qed

lemma take_elements: "k \<le> n \<Longrightarrow> take k (elements sz n buf) = elements sz k buf"
  by (simp add: elements_def take_map min_def)

lemma length_elements: "length (elements sz n buf) = n"
  by (simp add: elements_def)

lemma read_worker:
  assumes r: "r + 1 < length dist" and sz: "0 < sz" and al: "align \<noteq> 0"
    and rr: "read_range r (worker_pack dist file r) kw align = (b, e)"
    and wb: "dist ! r \<le> b" and be: "b \<le> e"
    and m: "(unat e - unat b) mod sz = 0"
    and fin: "unat e \<le> length file"
  shows "read sz conv r (worker_pack dist file r) kw out align
     = Some (out @ map (\<lambda>t. conv (swap t))
         (elements sz ((unat e - unat b) div sz) (drop (unat b) file)))"
proof (cases "b < e")
  case False
  then have "b = e" using be by simp
  then have "elements sz ((unat e - unat b) div sz) (drop (unat b) file) = []"
    by (simp add: elements_def)
  then show ?thesis using False r sz al rr by (simp add: read_def worker_pack_def)
next
  case True
  define w ub ue where "w = unat (dist ! r)" and "ub = unat b" and "ue = unat e"
  have wub: "w \<le> ub" using wb unfolding w_def ub_def by (simp add: word_le_nat_alt)
  have ube: "ub \<le> ue" using be unfolding ub_def ue_def by (simp add: word_le_nat_alt)
  have d1: "unat (e - b) = ue - ub" unfolding ub_def ue_def using be by (rule unat_sub)
  have d2: "unat (b - dist ! r) = ub - w" unfolding ub_def w_def using wb by (rule unat_sub)
  have fin': "ue \<le> length file" using fin unfolding ue_def .
  have m': "(ue - ub) mod sz = 0" using m unfolding ue_def ub_def .
  have cp: "memcpy (drop w file) (ub - w) (ue - ub) = Some (take (ue - ub) (drop ub file))"
    using wub ube fin' by (simp add: memcpy_def)
  have "(ue - ub) div sz * sz = ue - ub" using m' by (simp add: mod_0_imp_dvd)
  then have el: "elements sz ((ue - ub) div sz) (take (ue - ub) (drop ub file))
      = elements sz ((ue - ub) div sz) (drop ub file)"
    by (intro elements_take) simp
  have "read sz conv r (worker_pack dist file r) kw out align
      = map_option (\<lambda>data. out @ map (\<lambda>t. conv (swap t)) (elements sz ((ue - ub) div sz) data))
          (memcpy (drop w file) (ub - w) (ue - ub))"
    using True r sz al rr m' by (simp add: read_def worker_pack_def d1 d2 w_def)
  then show ?thesis unfolding cp using el by (simp add: ub_def ue_def)
qed

lemma readMore_worker:
  assumes r: "r + 1 < length dist" and sz: "0 < sz" and al: "align \<noteq> 0"
    and rr: "snd (read_range r (worker_pack dist file r) kw align) = e"
    and wb: "dist ! r \<le> e"
    and fin: "unat e + unat n * sz \<le> length file"
  shows "readMore sz conv r (worker_pack dist file r) kw out align n
     = Some (out @ map (\<lambda>t. conv (swap t)) (elements sz (unat n) (drop (unat e) file)))"
proof -
  define w ue where "w = unat (dist ! r)" and "ue = unat e"
  have wue: "w \<le> ue" using wb unfolding w_def ue_def by (simp add: word_le_nat_alt)
  have d: "unat (e - dist ! r) = ue - w" unfolding ue_def w_def using wb by (rule unat_sub)
  have fin': "ue + unat n * sz \<le> length file" using fin unfolding ue_def .
  have cp: "memcpy (drop w file) (ue - w) (unat n * sz)
      = Some (take (unat n * sz) (drop ue file))"
    using wue fin' by (simp add: memcpy_def)
  have el: "elements sz (unat n) (take (unat n * sz) (drop ue file))
      = elements sz (unat n) (drop ue file)"
    by (intro elements_take) simp
  have "readMore sz conv r (worker_pack dist file r) kw out align n
      = map_option (\<lambda>data. out @ map (\<lambda>t. conv (swap t)) (elements sz (unat n) data))
          (memcpy (drop w file) (ue - w) (unat n * sz))"
    using r sz al rr by (simp add: readMore_def worker_pack_def d w_def)
  then show ?thesis unfolding cp using el by (simp add: ue_def)
qed

lemma ceil_to_mono: "x \<le> y \<Longrightarrow> ceil_to c x \<le> ceil_to c y"
  unfolding ceil_to_def by (intro mult_le_mono1 div_le_mono) simp

lemma ceil_to_ge:
  assumes "0 < c"
  shows "n \<le> ceil_to c n"
proof (cases "n mod c = 0")
  case True
  then have "ceil_to c n = n" by (simp add: ceil_to_cases[OF assms])
  then show ?thesis by simp
next
  case False
  then have "ceil_to c n = n + (c - n mod c)" by (simp add: ceil_to_cases[OF assms])
  then show ?thesis by (simp only: le_add1)
qed

lemma ceil_to_0: "0 < c \<Longrightarrow> ceil_to c 0 = 0"
  by (simp add: ceil_to_cases)

lemma round_self: "round x x chunk = x"
  by (simp add: round_def)

lemma binary_tiling:
  assumes win: "w0 \<le> begin_byte kw" "begin_byte kw \<le> s" "s \<le> end_byte kw" "end_byte kw \<le> w2"
    and sz: "0 < sz" and al: "unat align = c * sz" "align \<noteq> 0"
    and fit: "unat (end_byte kw) + unat align < 2 ^ 64"
    and fin: "unat (round (end_byte kw) (begin_byte kw) align) \<le> length file"
  shows "\<exists>n0 n1.
      read sz conv 0 (worker_pack [w0, s, w2] file 0) kw [] align
        = Some (map (\<lambda>t. conv (swap t)) (elements sz n0 (drop (unat (begin_byte kw)) file)))
    \<and> read sz conv 1 (worker_pack [w0, s, w2] file 1) kw [] align
        = Some (map (\<lambda>t. conv (swap t))
            (elements sz n1 (drop (n0 * sz) (drop (unat (begin_byte kw)) file))))
    \<and> read sz conv 0 (worker_pack [w0, w2] file 0) kw [] align
        = Some (map (\<lambda>t. conv (swap t)) (elements sz (n0 + n1) (drop (unat (begin_byte kw)) file)))
    \<and> n0 * sz mod unat align = 0
    \<and> snd (read_range 0 (worker_pack [w0, s, w2] file 0) kw align)
        = round s (begin_byte kw) align
    \<and> unat (round s (begin_byte kw) align) = unat (begin_byte kw) + n0 * sz
    \<and> unat (begin_byte kw) + (n0 + n1) * sz \<le> length file"
proof -
  define kb ke where "kb = begin_byte kw" and "ke = end_byte kw"
  define S K where "S = round s kb align" and "K = round ke kb align"
  define a where "a = unat align"
  define q0 q1 where "q0 = (unat s - unat kb + a - 1) div a" and "q1 = (unat ke - unat kb + a - 1) div a"
  have a0: "0 < a" using al(2) unfolding a_def by (simp add: unat_gt_0)
  have asz: "a = c * sz" using al(1) unfolding a_def .
  have le: "unat kb \<le> unat s" "unat s \<le> unat ke"
    using win(2,3) unfolding kb_def ke_def by (simp_all add: word_le_nat_alt)
  have fs: "unat s + unat align < 2 ^ 64" using fit le(2) unfolding ke_def by simp
  have uS: "unat S = unat kb + q0 * a"
    unfolding S_def q0_def a_def using round_unat[OF win(2) al(2) fs]
    by (simp add: kb_def ceil_to_def)
  have kbke: "kb \<le> ke" using win(2,3) unfolding kb_def ke_def by simp
  have uK: "unat K = unat kb + q1 * a"
    unfolding K_def q1_def a_def using round_unat[OF kbke[unfolded kb_def ke_def] al(2) fit]
    by (simp add: kb_def ke_def ceil_to_def)
  have q01: "q0 \<le> q1" unfolding q0_def q1_def using le by (intro div_le_mono) simp
  then have q01a: "q0 * a \<le> q1 * a" by (rule mult_le_mono1)
  have sS: "unat s \<le> unat S"
  proof -
    have "unat s - unat kb \<le> ceil_to a (unat s - unat kb)" using a0 by (rule ceil_to_ge)
    then show ?thesis unfolding uS using le(1) by (simp add: ceil_to_def q0_def)
  qed
  have w_kb: "kb \<le> S" unfolding word_le_nat_alt uS by simp
  have w_SK: "S \<le> K" unfolding word_le_nat_alt uS uK using q01a by simp
  have w_kbK: "kb \<le> K" unfolding word_le_nat_alt uK by simp
  have w_sS: "s \<le> S" unfolding word_le_nat_alt using sS .
  \<comment> \<open>the three ranges\<close>
  have rr0: "read_range 0 (worker_pack [w0, s, w2] file 0) kw align = (kb, S)"
    using win by (simp add: read_range_def worker_pack_def max_def min_def round_self kb_def S_def)
  have rr1: "read_range 1 (worker_pack [w0, s, w2] file 1) kw align = (S, K)"
    using win by (simp add: read_range_def worker_pack_def max_def min_def kb_def ke_def S_def K_def)
  have rrW: "read_range 0 (worker_pack [w0, w2] file 0) kw align = (kb, K)"
    using win by (simp add: read_range_def worker_pack_def max_def min_def round_self kb_def ke_def K_def)
  \<comment> \<open>element counts\<close>
  define n0 n1 where "n0 = q0 * c" and "n1 = (q1 - q0) * c"
  have d0: "unat S - unat kb = n0 * sz" unfolding uS n0_def asz by simp
  have d1: "unat K - unat S = n1 * sz"
    unfolding uS uK n1_def asz using q01 by (simp add: diff_mult_distrib)
  have dW: "unat K - unat kb = (n0 + n1) * sz"
    unfolding uK n0_def n1_def asz using q01
    by (simp add: add_mult_distrib[symmetric] mult.assoc)
  have finK: "unat K \<le> length file" using fin unfolding K_def kb_def ke_def .
  have finS: "unat S \<le> length file" using finK w_SK by (simp add: word_le_nat_alt)
  have e0: "read sz conv 0 (worker_pack [w0, s, w2] file 0) kw [] align
      = Some ([] @ map (\<lambda>t. conv (swap t)) (elements sz ((unat S - unat kb) div sz) (drop (unat kb) file)))"
  proof (rule read_worker)
    show "0 + 1 < length [w0, s, w2]" by simp
    show "0 < sz" by fact
    show "align \<noteq> 0" by fact
    show "read_range 0 (worker_pack [w0, s, w2] file 0) kw align = (kb, S)" by (rule rr0)
    show "[w0, s, w2] ! 0 \<le> kb" using win(1) by (simp add: kb_def)
    show "kb \<le> S" by fact
    show "(unat S - unat kb) mod sz = 0" unfolding d0 by simp
    show "unat S \<le> length file" by fact
  qed
  have e1: "read sz conv 1 (worker_pack [w0, s, w2] file 1) kw [] align
      = Some ([] @ map (\<lambda>t. conv (swap t)) (elements sz ((unat K - unat S) div sz) (drop (unat S) file)))"
  proof (rule read_worker)
    show "1 + 1 < length [w0, s, w2]" by simp
    show "0 < sz" by fact
    show "align \<noteq> 0" by fact
    show "read_range 1 (worker_pack [w0, s, w2] file 1) kw align = (S, K)" by (rule rr1)
    show "[w0, s, w2] ! 1 \<le> S" using w_sS by simp
    show "S \<le> K" by fact
    show "(unat K - unat S) mod sz = 0" unfolding d1 by simp
    show "unat K \<le> length file" by fact
  qed
  have eW: "read sz conv 0 (worker_pack [w0, w2] file 0) kw [] align
      = Some ([] @ map (\<lambda>t. conv (swap t)) (elements sz ((unat K - unat kb) div sz) (drop (unat kb) file)))"
  proof (rule read_worker)
    show "0 + 1 < length [w0, w2]" by simp
    show "0 < sz" by fact
    show "align \<noteq> 0" by fact
    show "read_range 0 (worker_pack [w0, w2] file 0) kw align = (kb, K)" by (rule rrW)
    show "[w0, w2] ! 0 \<le> kb" using win(1) by (simp add: kb_def)
    show "kb \<le> K" by fact
    show "(unat K - unat kb) mod sz = 0" unfolding dW by simp
    show "unat K \<le> length file" by fact
  qed
  have dS: "drop (unat S) file = drop (n0 * sz) (drop (unat kb) file)"
    unfolding uS n0_def asz by (simp add: add.commute mult.assoc)
  have c1: "read sz conv 0 (worker_pack [w0, s, w2] file 0) kw [] align
      = Some (map (\<lambda>t. conv (swap t)) (elements sz n0 (drop (unat kb) file)))"
    unfolding e0 d0 using sz by simp
  have c2: "read sz conv 1 (worker_pack [w0, s, w2] file 1) kw [] align
      = Some (map (\<lambda>t. conv (swap t)) (elements sz n1 (drop (n0 * sz) (drop (unat kb) file))))"
    unfolding e1 d1 dS using sz by simp
  have c3: "read sz conv 0 (worker_pack [w0, w2] file 0) kw [] align
      = Some (map (\<lambda>t. conv (swap t)) (elements sz (n0 + n1) (drop (unat kb) file)))"
    unfolding eW dW using sz by simp
  have c4: "n0 * sz mod unat align = 0"
    unfolding n0_def a_def[symmetric] asz by (simp add: mult.assoc)
  have c5: "snd (read_range 0 (worker_pack [w0, s, w2] file 0) kw align) = round s kb align"
    unfolding rr0 S_def by simp
  have c6: "unat (round s kb align) = unat kb + n0 * sz"
    unfolding S_def[symmetric] uS n0_def asz by (simp add: mult.assoc)
  have c7: "unat kb + (n0 + n1) * sz \<le> length file"
    using finK unfolding uK n0_def n1_def asz using q01
    by (simp add: add_mult_distrib[symmetric] mult.assoc)
  show ?thesis
    unfolding kb_def[symmetric]
    by (intro exI[of _ n0] exI[of _ n1] conjI c1 c2 c3 c4 c5 c6 c7)
qed

text \<open>C2: let a record lie in the windows of two workers that meet at \<open>s\<close> inside the
  record, with an alignment that is a multiple of the element size and a rounded end
  inside the file. Then the binary decodes of the two workers, one after the other, are
  the decode of a single worker that owns both windows; for the alignment of three
  elements the first worker decodes whole triples; and after \<^verbatim>\<open>readMore\<close> of \<open>n\<close> values
  (the classifier's missing length of the first worker, which is the index of the first
  owned record of the second) the first worker's array followed by the second worker's
  array from index \<open>n\<close> on is again the single worker's array. For points decoded as \<open>p0\<close>
  and \<open>p1\<close> that together hold whole triples (for a binary file \<open>p0\<close> alone as well), the
  coordinates that the two workers emit after the completion of lines 363-377, with
  \<^verbatim>\<open>pbegin\<close> taken from the exclusive scan of the sizes, are one after the other the
  coordinates of the single worker. For ASCII cells, the first worker's values with \<open>n\<close>
  more, followed by the second worker's from index \<open>n\<close> on, are all values.\<close>

theorem boundary_completion:
  assumes win: "w0 \<le> begin_byte kw" "begin_byte kw \<le> s" "s \<le> end_byte kw" "end_byte kw \<le> w2"
    and sz: "0 < sz" and al: "unat align = c * sz" "align \<noteq> 0"
    and fit: "unat (end_byte kw) + unat align < 2 ^ 64"
    and fin: "unat (round (end_byte kw) (begin_byte kw) align) \<le> length file"
  shows "(\<exists>a0 a1.
        read sz conv 0 (worker_pack [w0, s, w2] file 0) kw [] align = Some a0
      \<and> read sz conv 1 (worker_pack [w0, s, w2] file 1) kw [] align = Some a1
      \<and> read sz conv 0 (worker_pack [w0, w2] file 0) kw [] align = Some (a0 @ a1)
      \<and> (c = 3 \<longrightarrow> length a0 mod 3 = 0)
      \<and> (\<forall>n. unat n \<le> length a1 \<longrightarrow>
            (\<exists>A0. readMore sz conv 0 (worker_pack [w0, s, w2] file 0) kw a0 align n = Some A0
               \<and> A0 @ drop (unat n) a1 = a0 @ a1)))
    \<and> (\<forall>format (p0 :: 'v list) p1 rest.
          length (p0 @ p1) mod 3 = 0 \<and> length (p0 @ p1) + 3 < 2 ^ 64
          \<and> (format \<noteq> ASCII \<longrightarrow> length p0 mod 3 = 0) \<longrightarrow>
          (\<exists>k0 k1.
             coordinates (exscan [of_nat (length p0), of_nat (length p1)] 0)
               (complete_points format (exscan [of_nat (length p0), of_nat (length p1)] 0) p0 p1)
               = Some k0
           \<and> coordinates (exscan [of_nat (length p0), of_nat (length p1)] 1)
               (complete_points format (exscan [of_nat (length p0), of_nat (length p1)] 1) p1 rest)
               = Some k1
           \<and> coordinates (exscan [of_nat (length (p0 @ p1))] 0)
               (complete_points format (exscan [of_nat (length (p0 @ p1))] 0) (p0 @ p1) rest)
               = Some (k0 @ k1)))
    \<and> (\<forall>(c0 :: 'v list) c1 n. addmore c0 c1 n @ drop (unat n) c1 = c0 @ c1)"
proof (intro conjI allI impI)
  from binary_tiling[OF win sz al fit fin, of conv]
  obtain n0 n1 where t:
    "read sz conv 0 (worker_pack [w0, s, w2] file 0) kw [] align
        = Some (map (\<lambda>t. conv (swap t)) (elements sz n0 (drop (unat (begin_byte kw)) file)))"
    "read sz conv 1 (worker_pack [w0, s, w2] file 1) kw [] align
        = Some (map (\<lambda>t. conv (swap t))
            (elements sz n1 (drop (n0 * sz) (drop (unat (begin_byte kw)) file))))"
    "read sz conv 0 (worker_pack [w0, w2] file 0) kw [] align
        = Some (map (\<lambda>t. conv (swap t)) (elements sz (n0 + n1) (drop (unat (begin_byte kw)) file)))"
    "n0 * sz mod unat align = 0"
    "snd (read_range 0 (worker_pack [w0, s, w2] file 0) kw align)
        = round s (begin_byte kw) align"
    "unat (round s (begin_byte kw) align) = unat (begin_byte kw) + n0 * sz"
    "unat (begin_byte kw) + (n0 + n1) * sz \<le> length file"
    by (elim exE conjE)
  define buf where "buf = drop (unat (begin_byte kw)) file"
  define a0 where "a0 = map (\<lambda>t. conv (swap t)) (elements sz n0 buf)"
  define a1 where "a1 = map (\<lambda>t. conv (swap t)) (elements sz n1 (drop (n0 * sz) buf))"
  have app: "map (\<lambda>t. conv (swap t)) (elements sz (n0 + n1) buf) = a0 @ a1"
    unfolding a0_def a1_def elements_split by simp
  have la1: "length a1 = n1" unfolding a1_def by (simp add: length_elements)
  have la0: "length a0 = n0" unfolding a0_def by (simp add: length_elements)
  have m3: "c = 3 \<longrightarrow> length a0 mod 3 = 0"
  proof
    assume c: "c = 3"
    have "n0 * sz mod (3 * sz) = 0" using t(4) unfolding al(1) c .
    then have "3 * sz dvd n0 * sz" by (simp add: dvd_eq_mod_eq_0)
    then have "3 dvd n0" using sz by simp
    then show "length a0 mod 3 = 0" unfolding la0 by (simp add: dvd_eq_mod_eq_0)
  qed
  have more: "\<forall>n. unat n \<le> length a1 \<longrightarrow>
      (\<exists>A0. readMore sz conv 0 (worker_pack [w0, s, w2] file 0) kw a0 align n = Some A0
         \<and> A0 @ drop (unat n) a1 = a0 @ a1)"
  proof (intro allI impI)
    fix n :: size_t assume n: "unat n \<le> length a1"
    have w: "[w0, s, w2] ! 0 \<le> round s (begin_byte kw) align"
      using win(1) unfolding word_le_nat_alt t(6) by simp
    have nn: "unat n * sz \<le> n1 * sz" using n unfolding la1 by (rule mult_le_mono1)
    have "unat (begin_byte kw) + n0 * sz + n1 * sz \<le> length file"
      using t(7) by (simp only: add_mult_distrib add.assoc)
    then have f: "unat (round s (begin_byte kw) align) + unat n * sz \<le> length file"
      unfolding t(6) using nn by linarith
    have "readMore sz conv 0 (worker_pack [w0, s, w2] file 0) kw a0 align n
        = Some (a0 @ map (\<lambda>t. conv (swap t))
            (elements sz (unat n) (drop (unat (round s (begin_byte kw) align)) file)))"
    proof (rule readMore_worker)
      show "0 + 1 < length [w0, s, w2]" by simp
      show "0 < sz" by fact
      show "align \<noteq> 0" by fact
      show "snd (read_range 0 (worker_pack [w0, s, w2] file 0) kw align)
          = round s (begin_byte kw) align" by (rule t(5))
      show "[w0, s, w2] ! 0 \<le> round s (begin_byte kw) align" by (rule w)
      show "unat (round s (begin_byte kw) align) + unat n * sz \<le> length file" by (rule f)
    qed
    moreover have "drop (unat (round s (begin_byte kw) align)) file = drop (n0 * sz) buf"
      unfolding t(6) buf_def by (simp add: add.commute)
    moreover have "map (\<lambda>t. conv (swap t)) (elements sz (unat n) (drop (n0 * sz) buf))
        = take (unat n) a1"
      unfolding a1_def using n[unfolded la1] by (simp add: take_map take_elements)
    ultimately have r: "readMore sz conv 0 (worker_pack [w0, s, w2] file 0) kw a0 align n
        = Some (a0 @ take (unat n) a1)" by simp
    have "(a0 @ take (unat n) a1) @ drop (unat n) a1 = a0 @ a1" by simp
    with r show "\<exists>A0. readMore sz conv 0 (worker_pack [w0, s, w2] file 0) kw a0 align n = Some A0
         \<and> A0 @ drop (unat n) a1 = a0 @ a1"
      by (intro exI[of _ "a0 @ take (unat n) a1"] conjI)
  qed
  show "\<exists>a0 a1.
        read sz conv 0 (worker_pack [w0, s, w2] file 0) kw [] align = Some a0
      \<and> read sz conv 1 (worker_pack [w0, s, w2] file 1) kw [] align = Some a1
      \<and> read sz conv 0 (worker_pack [w0, w2] file 0) kw [] align = Some (a0 @ a1)
      \<and> (c = 3 \<longrightarrow> length a0 mod 3 = 0)
      \<and> (\<forall>n. unat n \<le> length a1 \<longrightarrow>
            (\<exists>A0. readMore sz conv 0 (worker_pack [w0, s, w2] file 0) kw a0 align n = Some A0
               \<and> A0 @ drop (unat n) a1 = a0 @ a1))"
  proof (rule exI[of _ a0], rule exI[of _ a1], intro conjI)
    show "read sz conv 0 (worker_pack [w0, s, w2] file 0) kw [] align = Some a0"
      unfolding t(1) a0_def buf_def ..
    show "read sz conv 1 (worker_pack [w0, s, w2] file 1) kw [] align = Some a1"
      unfolding t(2) a1_def buf_def ..
    show "read sz conv 0 (worker_pack [w0, w2] file 0) kw [] align = Some (a0 @ a1)"
      using t(3) app by (simp only: buf_def)
    show "c = 3 \<longrightarrow> length a0 mod 3 = 0" by (rule m3)
    show "\<forall>n. unat n \<le> length a1 \<longrightarrow>
            (\<exists>A0. readMore sz conv 0 (worker_pack [w0, s, w2] file 0) kw a0 align n = Some A0
               \<and> A0 @ drop (unat n) a1 = a0 @ a1)" by (rule more)
  qed
next
  fix format and p0 p1 rest :: "'v list"
  assume h: "length (p0 @ p1) mod 3 = 0 \<and> length (p0 @ p1) + 3 < 2 ^ 64
          \<and> (format \<noteq> ASCII \<longrightarrow> length p0 mod 3 = 0)"
  show "\<exists>k0 k1.
             coordinates (exscan [of_nat (length p0), of_nat (length p1)] 0)
               (complete_points format (exscan [of_nat (length p0), of_nat (length p1)] 0) p0 p1)
               = Some k0
           \<and> coordinates (exscan [of_nat (length p0), of_nat (length p1)] 1)
               (complete_points format (exscan [of_nat (length p0), of_nat (length p1)] 1) p1 rest)
               = Some k1
           \<and> coordinates (exscan [of_nat (length (p0 @ p1))] 0)
               (complete_points format (exscan [of_nat (length (p0 @ p1))] 0) (p0 @ p1) rest)
               = Some (k0 @ k1)"
    by (rule points_completion[OF conjunct1[OF h] conjunct1[OF conjunct2[OF h]]
          conjunct2[OF conjunct2[OF h]]])
next
  fix c0 c1 :: "'v list" and n :: size_t
  show "addmore c0 c1 n @ drop (unat n) c1 = c0 @ c1" by (simp add: addmore_def)
qed

text \<open>An instance of C2: a record of 24 bytes from byte 4 on, split at byte 9 of a file of
  32 bytes; what the single worker decodes follows from the theorem.\<close>

theorem boundary_completion_witness:
  "read 4 id 0
      (worker_pack [0, 9, 32]
         [0, 1, 2, 3, 4, 5, 6, 7, 8, 9, 10, 11, 12, 13, 14, 15, 16, 17, 18, 19, 20, 21, 22, 23,
          24, 25, 26, 27, 28, 29, 30, 31] 0)
      \<lparr>fileindex = 0, rank = 0, offset = 0, begin_byte = 4, end_byte = 28\<rparr> [] 12
     = Some [[7, 6, 5, 4], [11, 10, 9, 8], [15, 14, 13, 12]]
   \<and> read 4 id 1
      (worker_pack [0, 9, 32]
         [0, 1, 2, 3, 4, 5, 6, 7, 8, 9, 10, 11, 12, 13, 14, 15, 16, 17, 18, 19, 20, 21, 22, 23,
          24, 25, 26, 27, 28, 29, 30, 31] 1)
      \<lparr>fileindex = 0, rank = 0, offset = 0, begin_byte = 4, end_byte = 28\<rparr> [] 12
     = Some [[19, 18, 17, 16], [23, 22, 21, 20], [27, 26, 25, 24]]
   \<and> read 4 id 0
      (worker_pack [0, 32]
         [0, 1, 2, 3, 4, 5, 6, 7, 8, 9, 10, 11, 12, 13, 14, 15, 16, 17, 18, 19, 20, 21, 22, 23,
          24, 25, 26, 27, 28, 29, 30, 31] 0)
      \<lparr>fileindex = 0, rank = 0, offset = 0, begin_byte = 4, end_byte = 28\<rparr> [] 12
     = Some [[7, 6, 5, 4], [11, 10, 9, 8], [15, 14, 13, 12],
             [19, 18, 17, 16], [23, 22, 21, 20], [27, 26, 25, 24]]"
proof -
  let ?F = "[0, 1, 2, 3, 4, 5, 6, 7, 8, 9, 10, 11, 12, 13, 14, 15, 16, 17, 18, 19, 20, 21, 22,
    23, 24, 25, 26, 27, 28, 29, 30, 31] :: byte list"
  let ?K = "\<lparr>fileindex = 0, rank = 0, offset = 0, begin_byte = 4, end_byte = 28\<rparr>"
  have e0: "read 4 id 0 (worker_pack [0, 9, 32] ?F 0) ?K [] 12
      = Some [[7, 6, 5, 4], [11, 10, 9, 8], [15, 14, 13, 12]]"
    by (simp add: read_def read_range_def round_def memcpy_def elements_def swap_def
        worker_pack_def upt_rec)
  have e1: "read 4 id 1 (worker_pack [0, 9, 32] ?F 1) ?K [] 12
      = Some [[19, 18, 17, 16], [23, 22, 21, 20], [27, 26, 25, 24]]"
    by (simp add: read_def read_range_def round_def memcpy_def elements_def swap_def
        worker_pack_def upt_rec)
  have h: "(0 :: size_t) \<le> begin_byte ?K" "begin_byte ?K \<le> 9" "(9 :: size_t) \<le> end_byte ?K"
    "end_byte ?K \<le> 32" "0 < (4 :: nat)" "unat (12 :: size_t) = 3 * 4" "(12 :: size_t) \<noteq> 0"
    "unat (end_byte ?K) + unat (12 :: size_t) < 2 ^ 64"
    "unat (round (end_byte ?K) (begin_byte ?K) 12) \<le> length ?F"
    by (simp_all add: round_def)
  from boundary_completion[OF h, of id, THEN conjunct1]
  obtain a0 a1 where a:
    "read 4 id 0 (worker_pack [0, 9, 32] ?F 0) ?K [] 12 = Some a0
      \<and> read 4 id 1 (worker_pack [0, 9, 32] ?F 1) ?K [] 12 = Some a1
      \<and> read 4 id 0 (worker_pack [0, 32] ?F 0) ?K [] 12 = Some (a0 @ a1)
      \<and> (3 = (3 :: nat) \<longrightarrow> length a0 mod 3 = 0)
      \<and> (\<forall>n. unat n \<le> length a1 \<longrightarrow>
            (\<exists>A0. readMore 4 id 0 (worker_pack [0, 9, 32] ?F 0) ?K a0 12 n = Some A0
               \<and> A0 @ drop (unat n) a1 = a0 @ a1))"
    by (elim exE)
  have a0: "a0 = [[7, 6, 5, 4], [11, 10, 9, 8], [15, 14, 13, 12]]"
    using conjunct1[OF a] unfolding e0 by simp
  have a1: "a1 = [[19, 18, 17, 16], [23, 22, 21, 20], [27, 26, 25, 24]]"
    using conjunct1[OF conjunct2[OF a]] unfolding e1 by simp
  have eW: "read 4 id 0 (worker_pack [0, 32] ?F 0) ?K [] 12
      = Some ([[7, 6, 5, 4], [11, 10, 9, 8], [15, 14, 13, 12]]
          @ [[19, 18, 17, 16], [23, 22, 21, 20], [27, 26, 25, 24]])"
    using conjunct1[OF conjunct2[OF conjunct2[OF a]]] unfolding a0 a1 .
  show ?thesis unfolding e0 e1 eW by simp
qed

end
